theory Spec2Isabelle
  imports Main "HOL-Library.Sublist"
begin

section \<open>The file sorter of \<^verbatim>\<open>file_sorter.py\<close>, as HOL functions\<close>

text \<open>
  The program walks a directory tree, relocates directories that look like projects or
  application bundles as whole units, relocates every other file into a category
  directory chosen by its extension, and optionally removes the directories it emptied.

  The embedding keeps the program's structure. The file system is an explicit value (a
  tree of named entries) that every operation takes and returns; an exception the source
  raises is a value of a sum or an absent result; a log call the claims speak about is an
  event appended to a list; a loop is a recursive function over what it iterates.

  Modelling boundaries, each stated where the definition stands: paths are the resolved
  absolute paths, written as their component lists; a string is the sequence of bytes of
  its UTF-8 encoding; symbolic links and the progress reports written to the log are left
  out. What the program takes from outside is a record \<open>platform\<close>: the function
  \<^verbatim>\<open>str.lower\<close>, the paths at which \<^verbatim>\<open>Path.exists()\<close> raises, the entries the operating
  system refuses to rename or remove, and what a refused move leaves behind. Whether a
  directory can be listed is a flag of the directory.
\<close>

subsection \<open>Strings and paths\<close>

type_synonym path = "string list"

text \<open>\<^verbatim>\<open>str.rfind(ch)\<close>: the index of the last occurrence, \<open>-1\<close> when there is none.\<close>

fun rfind :: "char \<Rightarrow> string \<Rightarrow> int" where
  "rfind ch [] = - 1"
| "rfind ch (x # xs) =
     (let r = rfind ch xs in if 0 \<le> r then r + 1 else if x = ch then 0 else - 1)"

text \<open>\<^verbatim>\<open>PurePath.suffix\<close> and \<^verbatim>\<open>PurePath.stem\<close> of a final component (pathlib, Python up to 3.12):
  \<^verbatim>\<open>i = name.rfind('.'); if 0 < i < len(name) - 1: name[i:] / name[:i] else '' / name\<close>.\<close>

definition suffix_of :: "string \<Rightarrow> string" where
  "suffix_of name =
     (let i = rfind (CHR ''.'') name
      in if 0 < i \<and> i < int (length name) - 1 then drop (nat i) name else [])"

definition stem_of :: "string \<Rightarrow> string" where
  "stem_of name =
     (let i = rfind (CHR ''.'') name
      in if 0 < i \<and> i < int (length name) - 1 then take (nat i) name else name)"

text \<open>Lower-casing of the ASCII letters: what \<^verbatim>\<open>str.lower()\<close> does to a string of ASCII
  characters. It is the instance used in the examples, whose names are ASCII; the resolver
  itself takes \<^verbatim>\<open>str.lower\<close> from the platform.\<close>

definition ascii_lower_char :: "char \<Rightarrow> char" where
  "ascii_lower_char c =
     (case map_of (zip ''ABCDEFGHIJKLMNOPQRSTUVWXYZ'' ''abcdefghijklmnopqrstuvwxyz'') c of
        Some d \<Rightarrow> d
      | None \<Rightarrow> c)"

definition ascii_lower :: "string \<Rightarrow> string" where
  "ascii_lower s = map ascii_lower_char s"

definition lstrip :: "char \<Rightarrow> string \<Rightarrow> string" where
  "lstrip ch s = dropWhile (\<lambda>c. c = ch) s"

text \<open>Splitting a string at a separator; \<open>split_on c s\<close> is never empty.\<close>

fun split_on :: "char \<Rightarrow> string \<Rightarrow> string list" where
  "split_on ch [] = [[]]"
| "split_on ch (x # xs) =
     (if x = ch then [] # split_on ch xs
      else (case split_on ch xs of [] \<Rightarrow> [[x]] | w # ws \<Rightarrow> (x # w) # ws))"

text \<open>The components pathlib keeps of a string: empty components and \<open>.\<close> are dropped.\<close>

definition path_parts :: "string \<Rightarrow> path" where
  "path_parts s = filter (\<lambda>w. w \<noteq> [] \<and> w \<noteq> ''.'') (split_on (CHR ''/'') s)"

text \<open>\<^verbatim>\<open>Path(s).name\<close> of a string, and \<^verbatim>\<open>p.name\<close>, \<^verbatim>\<open>p.parent\<close> of a resolved path
  (the root \<open>[]\<close> has the name \<open>''\<close> and is its own parent).\<close>

definition name_of_string :: "string \<Rightarrow> string" where
  "name_of_string s = (let ps = path_parts s in if ps = [] then [] else last ps)"

definition path_name :: "path \<Rightarrow> string" where
  "path_name p = (if p = [] then [] else last p)"

definition path_parent :: "path \<Rightarrow> path" where
  "path_parent p = butlast p"

text \<open>\<^verbatim>\<open>p.parents\<close>: the proper ancestors of \<open>p\<close>.\<close>

definition path_parents :: "path \<Rightarrow> path list" where
  "path_parents p = butlast (prefixes p)"

text \<open>\<^verbatim>\<open>len(p.parts)\<close> of an absolute path counts the anchor \<open>/\<close> as one part.\<close>

definition parts_len :: "path \<Rightarrow> nat" where
  "parts_len p = Suc (length p)"

text \<open>\<^verbatim>\<open>p / s\<close> for a string \<open>s\<close> that may hold several components (a category such as
  \<open>Documents/Text\<close>): an absolute \<open>s\<close> replaces \<open>p\<close>. \<^verbatim>\<open>p / n\<close> for a single component
  \<open>n\<close> (an entry's name, a literal, a generated file name): joining \<open>''\<close> adds nothing.\<close>

definition joinpath :: "path \<Rightarrow> string \<Rightarrow> path" where
  "joinpath p s = (if s \<noteq> [] \<and> hd s = CHR ''/'' then path_parts s else p @ path_parts s)"

definition join_name :: "path \<Rightarrow> string \<Rightarrow> path" where
  "join_name p n = (if n = [] then p else p @ [n])"

text \<open>\<^verbatim>\<open>str(n)\<close> of a natural number.\<close>

fun str_nat :: "nat \<Rightarrow> string" where
  "str_nat n =
     (if n < 10 then [''0123456789'' ! n]
      else str_nat (n div 10) @ [''0123456789'' ! (n mod 10)])"

subsection \<open>Errors and log events\<close>

datatype error =
    FileNotFoundError
  | NotADirectoryError
  | PermissionError
  | OSError
  | ValueError string

datatype event =
    PathValidationFailed error
  | ProjectMoving path path
  | ProjectMoveFailed path
  | FileTarget path path
  | FileMoveFailed path
  | TooManyCollisions path
  | DeletingEmptyDirectory path
  | CouldNotDelete path
  | UnexpectedError error

text \<open>\<^verbatim>\<open>p.relative_to(other)\<close> raises \<^verbatim>\<open>ValueError\<close> unless \<open>other\<close> is \<open>p\<close> or an ancestor of it.\<close>

definition relative_to :: "path \<Rightarrow> path \<Rightarrow> error + path" where
  "relative_to p other =
     (if prefix other p then Inr (drop (length other) p)
      else Inl (ValueError ''is not in the subpath''))"

subsection \<open>Configuration\<close>

text \<open>The module's global tables, passed explicitly. \<^verbatim>\<open>APPLICATION_EXECUTABLE_EXTENSIONS\<close>
  is loaded by the source but read by none of the functions below.\<close>

record config =
  FILE_CATEGORIES :: "string \<rightharpoonup> string"
  DEFAULT_CATEGORY :: string
  PROJECT_FILE_MARKERS :: "string list"
  PROJECT_DIR_MARKERS :: "string list"
  SPECIAL_APP_DIRS_AS_FILES :: "string list"

text \<open>The hard-coded fallbacks of \<^verbatim>\<open>load_config\<close>.\<close>

definition default_config :: config where
  "default_config =
     \<lparr> FILE_CATEGORIES = [''txt'' \<mapsto> ''Documents/Text''],
       DEFAULT_CATEGORY = ''Miscellaneous/Other'',
       PROJECT_FILE_MARKERS = [''.git''],
       PROJECT_DIR_MARKERS = [''node_modules''],
       SPECIAL_APP_DIRS_AS_FILES = [''.app''] \<rparr>"

subsection \<open>The file system\<close>

text \<open>An entry is a file with its content or a directory with a flag (whether it can be
  listed) and its entries in listing order. The whole file system is the node of \<open>/\<close>.\<close>

datatype node = File string | Dir bool "(string \<times> node) list"

fun is_dir_node :: "node \<Rightarrow> bool" where
  "is_dir_node (Dir r cs) = True"
| "is_dir_node (File c) = False"

fun lookup :: "node \<Rightarrow> path \<Rightarrow> node option" where
  "lookup n [] = Some n"
| "lookup (File c) (x # xs) = None"
| "lookup (Dir r cs) (x # xs) =
     (case map_of cs x of None \<Rightarrow> None | Some c \<Rightarrow> lookup c xs)"

definition path_exists :: "node \<Rightarrow> path \<Rightarrow> bool" where
  "path_exists fs p = (lookup fs p \<noteq> None)"

definition path_is_dir :: "node \<Rightarrow> path \<Rightarrow> bool" where
  "path_is_dir fs p = (case lookup fs p of Some n \<Rightarrow> is_dir_node n | None \<Rightarrow> False)"

text \<open>\<^verbatim>\<open>os.listdir\<close> of a node: the names, or no result where the source would get an
  \<^verbatim>\<open>OSError\<close> (not a directory, or a directory that cannot be listed). This is
  \<^verbatim>\<open>cache_directory_contents\<close>, whose \<^verbatim>\<open>except\<close> branch returns \<^verbatim>\<open>None\<close>.\<close>

fun cache_directory_contents :: "node \<Rightarrow> string list option" where
  "cache_directory_contents (Dir r cs) = (if r then Some (map fst cs) else None)"
| "cache_directory_contents (File c) = None"

definition listdir :: "node \<Rightarrow> path \<Rightarrow> string list option" where
  "listdir fs p = (case lookup fs p of Some n \<Rightarrow> cache_directory_contents n | None \<Rightarrow> None)"

text \<open>Changing the node at a path, where there is one.\<close>

fun update_at :: "path \<Rightarrow> (node \<Rightarrow> node) \<Rightarrow> node \<Rightarrow> node" where
  "update_at [] f n = f n"
| "update_at (x # xs) f (File c) = File c"
| "update_at (x # xs) f (Dir r cs) =
     Dir r (map (\<lambda>(n, c). if n = x then (n, update_at xs f c) else (n, c)) cs)"

fun del_entry :: "string \<Rightarrow> node \<Rightarrow> node" where
  "del_entry x (Dir r cs) = Dir r (filter (\<lambda>(n, c). n \<noteq> x) cs)"
| "del_entry x (File c) = File c"

fun put_entry :: "string \<Rightarrow> node \<Rightarrow> node \<Rightarrow> node" where
  "put_entry x new (Dir r cs) =
     (if x \<in> fst ` set cs then Dir r (map (\<lambda>(n, c). if n = x then (n, new) else (n, c)) cs)
      else Dir r (cs @ [(x, new)]))"
| "put_entry x new (File c) = File c"

text \<open>Unlinking the entry at a path, and placing a node at a path whose parent exists
  (replacing what was there). The root can be neither removed nor replaced.\<close>

definition remove_at :: "path \<Rightarrow> node \<Rightarrow> node" where
  "remove_at p fs = (if p = [] then fs else update_at (butlast p) (del_entry (last p)) fs)"

definition place_at :: "path \<Rightarrow> node \<Rightarrow> node \<Rightarrow> node" where
  "place_at p new fs = (if p = [] then fs else update_at (butlast p) (put_entry (last p) new) fs)"

text \<open>\<^verbatim>\<open>p.mkdir(parents=True, exist_ok=True)\<close>: every missing directory along \<open>p\<close> is
  created; a file standing at \<open>p\<close> or at an ancestor makes it raise, and then nothing has
  been created.\<close>

fun fresh_dirs :: "path \<Rightarrow> node" where
  "fresh_dirs [] = Dir True []"
| "fresh_dirs (x # xs) = Dir True [(x, fresh_dirs xs)]"

fun mkdir_parents :: "path \<Rightarrow> node \<Rightarrow> node option" where
  "mkdir_parents p (File c) = None"
| "mkdir_parents [] (Dir r cs) = Some (Dir r cs)"
| "mkdir_parents (x # xs) (Dir r cs) =
     (case map_of cs x of
        None \<Rightarrow> Some (Dir r (cs @ [(x, fresh_dirs xs)]))
      | Some c \<Rightarrow>
          (case mkdir_parents xs c of
             None \<Rightarrow> None
           | Some c' \<Rightarrow> Some (put_entry x c' (Dir r cs))))"

subsection \<open>The platform\<close>

text \<open>What the program takes from outside.
  \<^item> \<open>str_lower\<close> is \<^verbatim>\<open>str.lower\<close>, on strings given by their UTF-8 bytes.
  \<^item> \<open>exists_raises p\<close>: the call \<^verbatim>\<open>Path(p).exists()\<close> raises. pathlib answers \<^verbatim>\<open>False\<close>
    where \<^verbatim>\<open>stat\<close> reports a missing entry, and re-raises every other \<^verbatim>\<open>OSError\<close> (a name
    longer than the file system allows, a directory that may not be searched).
  \<^item> \<open>refused p\<close>: the operating system refuses to rename and to remove the entry \<open>p\<close>:
    \<^verbatim>\<open>os.rename\<close> from \<open>p\<close> and \<^verbatim>\<open>os.rmdir\<close> of \<open>p\<close> raise.
  \<^item> \<open>leftover fs src dst\<close>: the file system that \<^verbatim>\<open>shutil.move(src, dst)\<close> leaves behind
    when the rename is refused. It then copies the source and deletes it, and raises where
    either fails: nothing has changed when the copy failed; a copy stands at \<open>dst\<close>, beside a
    source still in place or partly deleted, when the deletion failed.
\<close>

record platform =
  str_lower :: "string \<Rightarrow> string"
  exists_raises :: "path \<Rightarrow> bool"
  refused :: "path \<Rightarrow> bool"
  leftover :: "node \<Rightarrow> path \<Rightarrow> path \<Rightarrow> node"

text \<open>The platform that refuses nothing, with the lower-casing of ASCII names.\<close>

definition quiet :: platform where
  "quiet = \<lparr> str_lower = ascii_lower, exists_raises = (\<lambda>p. False), refused = (\<lambda>p. False),
             leftover = (\<lambda>fs src dst. fs) \<rparr>"

text \<open>\<^verbatim>\<open>Path(p).exists()\<close>.\<close>

definition exists :: "platform \<Rightarrow> node \<Rightarrow> path \<Rightarrow> error + bool" where
  "exists env fs p = (if exists_raises env p then Inl OSError else Inr (path_exists fs p))"

text \<open>\<^verbatim>\<open>shutil.move(src, dst)\<close>: whether it returned, and the file system after it. A \<open>dst\<close>
  that is a directory receives the entry under the source's name, and an entry of that name
  there is an error. Otherwise the entry is renamed: a directory is not moved into itself
  nor onto a file; a file replaces a file. Where the rename fails for one of these reasons
  the copy that \<^verbatim>\<open>shutil.move\<close> tries next fails for the same reason, and nothing has
  changed. Where the operating system refuses the rename, the platform says what is left.
  The callers create the directory the target lies in before they move; without that
  directory the answer given here is the one for a source that is a file.\<close>

definition shutil_move :: "platform \<Rightarrow> node \<Rightarrow> path \<Rightarrow> path \<Rightarrow> bool \<times> node" where
  "shutil_move env fs src dst =
     (case lookup fs src of
        None \<Rightarrow> (False, fs)
      | Some n \<Rightarrow>
          if src = dst then (True, fs)
          else let real_dst = (if path_is_dir fs dst then join_name dst (path_name src) else dst)
               in if path_is_dir fs dst \<and> path_exists fs real_dst then (False, fs)
                  else if prefix src real_dst then (False, fs)
                  else if \<not> path_is_dir fs (path_parent real_dst) then (False, fs)
                  else if path_exists fs real_dst \<and> is_dir_node n then (False, fs)
                  else if refused env src then (False, leftover env fs src real_dst)
                  else (True, place_at real_dst n (remove_at src fs)))"

subsection \<open>The category resolver\<close>

text \<open>\<^verbatim>\<open>extension = Path(filename).suffix.lower().lstrip('.')\<close>,
  \<^verbatim>\<open>FILE_CATEGORIES.get(extension, DEFAULT_CATEGORY)\<close>.\<close>

definition get_category_for_file :: "platform \<Rightarrow> config \<Rightarrow> string \<Rightarrow> string" where
  "get_category_for_file env cfg filename =
     (let extension = lstrip (CHR ''.'') (str_lower env (suffix_of (name_of_string filename)))
      in case FILE_CATEGORIES cfg extension of
           Some category \<Rightarrow> category
         | None \<Rightarrow> DEFAULT_CATEGORY cfg)"

text \<open>The resolver as the specification words it: the extension is what follows the last
  \<open>.\<close> of the name, lower-cased, and is absent when the name has no \<open>.\<close> or nothing
  follows the last one; a name whose extension is absent or no key gets the default.\<close>

definition spec_extension :: "platform \<Rightarrow> string \<Rightarrow> string option" where
  "spec_extension env name =
     (if CHR ''.'' \<notin> set name then None
      else let e = rev (takeWhile (\<lambda>c. c \<noteq> CHR ''.'') (rev name))
           in if e = [] then None else Some (str_lower env e))"

definition spec_category :: "platform \<Rightarrow> config \<Rightarrow> string \<Rightarrow> string" where
  "spec_category env cfg name =
     (case spec_extension env name of
        None \<Rightarrow> DEFAULT_CATEGORY cfg
      | Some e \<Rightarrow> (case FILE_CATEGORIES cfg e of
                    Some category \<Rightarrow> category
                  | None \<Rightarrow> DEFAULT_CATEGORY cfg))"

text \<open>The extension the resolver looks up, in the same words but for two points: a
  \<open>.\<close> that is the first character of the name starts no extension, and an absent
  extension is looked up as the empty string.\<close>

definition resolver_extension :: "platform \<Rightarrow> string \<Rightarrow> string" where
  "resolver_extension env name =
     (case spec_extension env name of
        None \<Rightarrow> []
      | Some e \<Rightarrow> if CHR ''.'' \<in> set (tl name) then e else [])"

text \<open>What the amended claim needs of \<^verbatim>\<open>str.lower\<close>: the empty string stays empty, a leading
  \<open>.\<close> stays in front of the lowered rest, and lowering a string without \<open>.\<close> brings none in.
  Python's \<^verbatim>\<open>str.lower\<close> maps \<open>.\<close> to itself and no other character to a string with a \<open>.\<close>
  in it; the one rule that looks at the neighbours of a character, for the capital sigma,
  asks for a cased letter before it, which \<open>.\<close> is not.\<close>

definition lowers_around_dots :: "(string \<Rightarrow> string) \<Rightarrow> bool" where
  "lowers_around_dots lw =
     (lw [] = [] \<and>
      (\<forall>s. lw (CHR ''.'' # s) = CHR ''.'' # lw s) \<and>
      (\<forall>s. CHR ''.'' \<notin> set s \<longrightarrow> CHR ''.'' \<notin> set (lw s)))"

subsection \<open>Path validation\<close>

text \<open>The source's check for an output inside the input:
  \<^verbatim>\<open>try: output_dir.relative_to(input_dir); raise ValueError(...)  except ValueError: pass\<close>.
  Its \<^verbatim>\<open>try\<close> body always raises \<^verbatim>\<open>ValueError\<close>: from \<^verbatim>\<open>relative_to\<close> when the output is
  not inside, from the \<^verbatim>\<open>raise\<close> when it is.\<close>

definition nested_check_body :: "path \<Rightarrow> path \<Rightarrow> error + unit" where
  "nested_check_body input_dir output_dir =
     (case relative_to output_dir input_dir of
        Inl e \<Rightarrow> Inl e
      | Inr rel \<Rightarrow> Inl (ValueError ''Output directory cannot be inside input directory''))"

fun except_ValueError_pass :: "error + unit \<Rightarrow> error + unit" where
  "except_ValueError_pass (Inl (ValueError msg)) = Inr ()"
| "except_ValueError_pass r = r"

definition validate_input_paths :: "node \<Rightarrow> path \<Rightarrow> path option \<Rightarrow> error + (path \<times> path)" where
  "validate_input_paths fs input_dir output_opt =
     (if \<not> path_exists fs input_dir then Inl FileNotFoundError
      else if \<not> path_is_dir fs input_dir then Inl NotADirectoryError
      else if listdir fs input_dir = None then Inl PermissionError
      else let output_dir =
                 (case output_opt of
                    Some out \<Rightarrow> out
                  | None \<Rightarrow> join_name (path_parent input_dir) (path_name input_dir @ ''_Sorted''))
           in if input_dir = output_dir
              then Inl (ValueError ''Input and output directories cannot be the same'')
              else (case except_ValueError_pass (nested_check_body input_dir output_dir) of
                      Inl e \<Rightarrow> Inl e
                    | Inr u \<Rightarrow> Inr (input_dir, output_dir)))"

subsection \<open>The classifier and the discovery pass\<close>

definition is_project_or_app_folder :: "config \<Rightarrow> path \<Rightarrow> string list \<Rightarrow> bool" where
  "is_project_or_app_folder cfg dir_path dir_contents =
     (if \<exists>sfx \<in> set (SPECIAL_APP_DIRS_AS_FILES cfg). suffix sfx (path_name dir_path) then True
      else if \<exists>item_name \<in> set dir_contents.
                item_name \<in> set (PROJECT_FILE_MARKERS cfg) \<or> item_name \<in> set (PROJECT_DIR_MARKERS cfg)
           then True
      else False)"

text \<open>\<^verbatim>\<open>any(processed == p or processed in p.parents for processed in processed_projects)\<close>.\<close>

definition under_processed :: "path set \<Rightarrow> path \<Rightarrow> bool" where
  "under_processed processed_projects p =
     (\<exists>processed \<in> processed_projects. processed = p \<or> processed \<in> set (path_parents p))"

text \<open>The guard \<^verbatim>\<open>dir_contents and is_project_or_app_folder(p, dir_contents)\<close>: in Python
  \<^verbatim>\<open>None\<close> and the empty list are both false.\<close>

definition classified :: "config \<Rightarrow> path \<Rightarrow> string list option \<Rightarrow> bool" where
  "classified cfg p contents =
     (case contents of
        None \<Rightarrow> False
      | Some names \<Rightarrow> names \<noteq> [] \<and> is_project_or_app_folder cfg p names)"

text \<open>The loop over \<^verbatim>\<open>dirs\<close> of one visited directory: the subdirectories it claims, and
  the ones it leaves in \<^verbatim>\<open>dirs\<close> for the walk to descend into.\<close>

definition subdir_claims :: "config \<Rightarrow> path set \<Rightarrow> path \<Rightarrow> (string \<times> node) list \<Rightarrow> (path \<times> path) list" where
  "subdir_claims cfg processed_projects root ds =
     [(root @ [dir_name], root @ [''Applications_And_Projects'', dir_name]).
        (dir_name, sub) \<leftarrow> ds,
        \<not> under_processed processed_projects (root @ [dir_name]),
        classified cfg (root @ [dir_name]) (cache_directory_contents sub)]"

definition dirs_kept :: "config \<Rightarrow> path set \<Rightarrow> path \<Rightarrow> (string \<times> node) list \<Rightarrow> (string \<times> node) list" where
  "dirs_kept cfg processed_projects root ds =
     [(dir_name, sub) \<leftarrow> ds.
        \<not> under_processed processed_projects (root @ [dir_name]) \<and>
        \<not> classified cfg (root @ [dir_name]) (cache_directory_contents sub)]"

text \<open>\<^verbatim>\<open>os.walk(top, topdown=True)\<close> with the body of \<^verbatim>\<open>identify_projects\<close>: a directory that
  cannot be listed yields nothing; a directory under a processed project, or classified
  itself, empties \<^verbatim>\<open>dirs\<close>; otherwise the walk goes on into the directories kept.\<close>

lemma dirs_kept_subset: "set (dirs_kept cfg processed_projects root ds) \<subseteq> set ds"
  by (auto simp: dirs_kept_def)

lemma size_entry_less: "(n, c) \<in> set cs \<Longrightarrow> size c < Suc (size_list (size_prod (\<lambda>x. 0) size) cs)"
  by (induction cs) auto

function identify_walk :: "config \<Rightarrow> path set \<Rightarrow> path \<Rightarrow> node \<Rightarrow> (path \<times> path) list" where
  "identify_walk cfg processed_projects root (File c) = []"
| "identify_walk cfg processed_projects root (Dir r cs) =
     (if \<not> r then []
      else if under_processed processed_projects root then []
      else if classified cfg root (cache_directory_contents (Dir r cs))
      then [(root, join_name (path_parent root @ [''Applications_And_Projects'']) (path_name root))]
      else subdir_claims cfg processed_projects root (filter (\<lambda>(n, c). is_dir_node c) cs) @
           concat (map (\<lambda>(n, c). identify_walk cfg processed_projects (root @ [n]) c)
                    (dirs_kept cfg processed_projects root (filter (\<lambda>(n, c). is_dir_node c) cs))))"
  by pat_completeness auto
termination
proof (relation "measure (\<lambda>(cfg, processed_projects, root, n). size n)")
  show "wf (measure (\<lambda>(cfg, processed_projects, root, n). size n))"
    by simp
next
  fix cfg :: config and processed_projects :: "path set" and root :: path
    and r :: bool and cs :: "(string \<times> node) list" and x :: "string \<times> node"
    and n :: string and c :: node
  assume "x \<in> set (dirs_kept cfg processed_projects root (filter (\<lambda>(n, c). is_dir_node c) cs))"
    and "(n, c) = x"
  then have "(n, c) \<in> set cs"
    by (auto simp: dirs_kept_def)
  then show "((cfg, processed_projects, root @ [n], c), (cfg, processed_projects, root, Dir r cs))
      \<in> measure (\<lambda>(cfg, processed_projects, root, n). size n)"
    using size_entry_less [of n c cs] by simp
qed

definition identify_projects :: "config \<Rightarrow> node \<Rightarrow> path \<Rightarrow> path set \<Rightarrow> (path \<times> path) list" where
  "identify_projects cfg fs input_dir processed_projects =
     (case lookup fs input_dir of
        None \<Rightarrow> []
      | Some n \<Rightarrow> identify_walk cfg processed_projects input_dir n)"

subsection \<open>Walking a tree\<close>

text \<open>\<^verbatim>\<open>os.walk(top, topdown=True)\<close> of a tree that does not change meanwhile: for every
  directory that can be listed, the top one first, its path with the names of its subdirectories
  and of its other entries. A top directory that is missing, a file or unlistable yields nothing.\<close>

fun os_walk :: "path \<Rightarrow> node \<Rightarrow> (path \<times> string list \<times> string list) list" where
  "os_walk root (File c) = []"
| "os_walk root (Dir r cs) =
     (if \<not> r then []
      else (root, map fst (filter (\<lambda>(n, c). is_dir_node c) cs),
                  map fst (filter (\<lambda>(n, c). \<not> is_dir_node c) cs)) #
           concat (map (\<lambda>(n, c). os_walk (root @ [n]) c) (filter (\<lambda>(n, c). is_dir_node c) cs)))"

definition os_walk_from :: "node \<Rightarrow> path \<Rightarrow> (path \<times> string list \<times> string list) list" where
  "os_walk_from fs top_dir = (case lookup fs top_dir of None \<Rightarrow> [] | Some n \<Rightarrow> os_walk top_dir n)"

definition count_items_to_process :: "node \<Rightarrow> path \<Rightarrow> nat" where
  "count_items_to_process fs input_dir =
     sum_list (map (\<lambda>(root, dirs, files). length files + length dirs) (os_walk_from fs input_dir))"

subsection \<open>Moving a project\<close>

text \<open>The result is what \<^verbatim>\<open>move_project\<close> returns, the file system after it and what it
  logged; \<open>Inl\<close> is the \<^verbatim>\<open>ValueError\<close> of \<^verbatim>\<open>relative_to\<close>, which the function does not catch.\<close>

definition move_project ::
  "platform \<Rightarrow> node \<Rightarrow> path \<Rightarrow> path \<Rightarrow> path \<Rightarrow> bool \<Rightarrow> error + (bool \<times> node \<times> event list)" where
  "move_project env fs source destination output_dir dry_run =
     (case relative_to destination (path_parent source) of
        Inl e \<Rightarrow> Inl e
      | Inr rel \<Rightarrow>
          let target_project_dir = output_dir @ rel;
              ev = [ProjectMoving source target_project_dir]
          in if dry_run then Inr (True, fs, ev)
             else (case mkdir_parents (path_parent target_project_dir) fs of
                     None \<Rightarrow> Inr (False, fs, ev @ [ProjectMoveFailed source])
                   | Some fs1 \<Rightarrow>
                       (case shutil_move env fs1 source target_project_dir of
                          (False, fs2) \<Rightarrow> Inr (False, fs2, ev @ [ProjectMoveFailed source])
                        | (True, fs2) \<Rightarrow> Inr (True, fs2, ev))))"

subsection \<open>The unique-name generator\<close>

text \<open>\<^verbatim>\<open>parent / f"{stem} ({counter}){suffix}"\<close>.\<close>

definition numbered_path :: "path \<Rightarrow> nat \<Rightarrow> path" where
  "numbered_path target counter =
     join_name (path_parent target)
       (stem_of (path_name target) @ '' ('' @ str_nat counter @ '')'' @ suffix_of (path_name target))"

text \<open>The \<^verbatim>\<open>while True\<close> loop, from the counter it has reached. Every round calls
  \<^verbatim>\<open>new_path.exists()\<close>, which may raise; the function catches nothing.\<close>

function unique_loop :: "platform \<Rightarrow> node \<Rightarrow> path \<Rightarrow> nat \<Rightarrow> error + (path \<times> event list)" where
  "unique_loop env fs target counter =
     (case exists env fs (numbered_path target counter) of
        Inl e \<Rightarrow> Inl e
      | Inr taken \<Rightarrow>
          if \<not> taken then Inr (numbered_path target counter, [])
          else if counter + 1 > 10000 then Inr (target, [TooManyCollisions target])
          else unique_loop env fs target (counter + 1))"
  by pat_completeness auto
termination
  by (relation "measure (\<lambda>(env, fs, target, counter). 10001 - counter)") auto

declare unique_loop.simps [simp del]

definition generate_unique_filename :: "platform \<Rightarrow> node \<Rightarrow> path \<Rightarrow> error + (path \<times> event list)" where
  "generate_unique_filename env fs target_file_path =
     (case exists env fs target_file_path of
        Inl e \<Rightarrow> Inl e
      | Inr taken \<Rightarrow>
          if \<not> taken then Inr (target_file_path, [])
          else unique_loop env fs target_file_path 1)"

subsection \<open>Moving one file\<close>

text \<open>The target is computed, by \<^verbatim>\<open>generate_unique_filename\<close>, before the \<^verbatim>\<open>try\<close> and before
  the test of \<^verbatim>\<open>dry_run\<close>: an exception raised there leaves the function, with nothing
  logged and nothing moved. The \<^verbatim>\<open>try\<close> holds \<^verbatim>\<open>mkdir\<close> and \<^verbatim>\<open>shutil.move\<close>; what they raise
  is caught, logged and answered with \<^verbatim>\<open>False\<close>.\<close>

definition categorize_and_move_file ::
  "platform \<Rightarrow> config \<Rightarrow> node \<Rightarrow> path \<Rightarrow> path \<Rightarrow> bool \<Rightarrow> error + (bool \<times> node \<times> event list)" where
  "categorize_and_move_file env cfg fs file_path output_dir dry_run =
     (let category_path_str = get_category_for_file env cfg (path_name file_path);
          target_file_dir = joinpath output_dir category_path_str
      in case generate_unique_filename env fs (join_name target_file_dir (path_name file_path)) of
           Inl e \<Rightarrow> Inl e
         | Inr (target_file_path, ev0) \<Rightarrow>
             let ev = ev0 @ [FileTarget file_path target_file_path]
             in if dry_run then Inr (True, fs, ev)
                else (case mkdir_parents target_file_dir fs of
                        None \<Rightarrow> Inr (False, fs, ev @ [FileMoveFailed file_path])
                      | Some fs1 \<Rightarrow>
                          (case shutil_move env fs1 file_path target_file_path of
                             (False, fs2) \<Rightarrow> Inr (False, fs2, ev @ [FileMoveFailed file_path])
                           | (True, fs2) \<Rightarrow> Inr (True, fs2, ev))))"

subsection \<open>Removing empty directories\<close>

text \<open>One candidate of the loop: whether it was removed, the file system after, the log.
  \<^verbatim>\<open>exists\<close> raises where the platform says, \<^verbatim>\<open>iterdir\<close> on a directory that cannot be
  listed and \<^verbatim>\<open>rmdir\<close> where the operating system refuses; all three land in the
  \<^verbatim>\<open>except\<close> branch. A candidate that is the input directory, missing, a file or not
  empty passes without a trace.\<close>

definition cleanup_candidate :: "platform \<Rightarrow> path \<Rightarrow> node \<Rightarrow> path \<Rightarrow> bool \<times> node \<times> event list" where
  "cleanup_candidate env input_dir fs dir_path =
     (if dir_path = input_dir then (False, fs, [])
      else if exists_raises env dir_path then (False, fs, [CouldNotDelete dir_path])
      else case lookup fs dir_path of
        Some (Dir r cs) \<Rightarrow>
          if \<not> r then (False, fs, [CouldNotDelete dir_path])
          else if cs \<noteq> [] then (False, fs, [])
          else if refused env dir_path \<or> dir_path = []
          then (False, fs, [DeletingEmptyDirectory dir_path, CouldNotDelete dir_path])
          else (True, remove_at dir_path fs, [DeletingEmptyDirectory dir_path])
      | Some (File c) \<Rightarrow> (False, fs, [])
      | None \<Rightarrow> (False, fs, []))"

fun cleanup_loop ::
  "platform \<Rightarrow> path \<Rightarrow> path list \<Rightarrow> nat \<times> node \<times> event list \<Rightarrow> nat \<times> node \<times> event list" where
  "cleanup_loop env input_dir [] acc = acc"
| "cleanup_loop env input_dir (dir_path # rest) (deleted_count, fs, ev) =
     (case cleanup_candidate env input_dir fs dir_path of
        (removed, fs', ev') \<Rightarrow>
          cleanup_loop env input_dir rest
            (if removed then deleted_count + 1 else deleted_count, fs', ev @ ev'))"

text \<open>\<^verbatim>\<open>sorted(directories_to_check, key=lambda p: len(p.parts), reverse=True)\<close> is a stable
  sort by descending key. The set is given as the list of its elements in the order the
  set iterates them, which Python leaves open: the definition is for any such order.\<close>

definition cleanup_empty_directories ::
  "platform \<Rightarrow> node \<Rightarrow> path \<Rightarrow> path list \<Rightarrow> bool \<Rightarrow> nat \<times> node \<times> event list" where
  "cleanup_empty_directories env fs input_dir directories_to_check_list dry_run =
     (if dry_run then (0, fs, [])
      else cleanup_loop env input_dir
             (sort_key (\<lambda>p. - int (parts_len p)) directories_to_check_list) (0, fs, []))"

subsection \<open>The run\<close>

record SortingProgress =
  total_items :: nat
  processed_items :: nat
  projects_moved :: nat
  files_moved :: nat
  errors :: nat

text \<open>What \<^verbatim>\<open>sort_files\<close> holds while it runs: the file system, the counters, the two
  sets (the cleanup candidates in the order they were added) and the log so far.\<close>

record run_state =
  disk :: node
  progress :: SortingProgress
  processed_projects :: "path set"
  directories_to_check :: "path list"
  log :: "event list"

definition count_processed :: "bool \<Rightarrow> bool \<Rightarrow> SortingProgress \<Rightarrow> SortingProgress" where
  "count_processed is_project ok pr =
     pr\<lparr> processed_items := processed_items pr + 1,
         projects_moved := (if is_project \<and> ok then projects_moved pr + 1 else projects_moved pr),
         files_moved := (if \<not> is_project \<and> ok then files_moved pr + 1 else files_moved pr),
         errors := (if ok then errors pr else errors pr + 1) \<rparr>"

text \<open>Phase 1, the loop over \<^verbatim>\<open>projects_to_move\<close>. \<open>Inl\<close> carries an exception that leaves
  the loop, with the state reached.\<close>

fun relocate_projects ::
  "platform \<Rightarrow> path \<Rightarrow> bool \<Rightarrow> (path \<times> path) list \<Rightarrow> run_state \<Rightarrow> (error \<times> run_state) + run_state" where
  "relocate_projects env output_dir dry_run [] s = Inr s"
| "relocate_projects env output_dir dry_run ((source_path, destination) # rest) s =
     (case move_project env (disk s) source_path destination output_dir dry_run of
        Inl e \<Rightarrow> Inl (e, s)
      | Inr (ok, fs', ev) \<Rightarrow>
          relocate_projects env output_dir dry_run rest
            (s\<lparr> disk := fs',
                log := log s @ ev,
                processed_projects :=
                  (if ok then insert source_path (processed_projects s) else processed_projects s),
                progress := count_processed True ok (progress s) \<rparr>))"

text \<open>Phase 2, the loop over the files of one visited directory. An exception of
  \<^verbatim>\<open>categorize_and_move_file\<close> leaves the loop, with the state reached.\<close>

fun process_files ::
  "platform \<Rightarrow> config \<Rightarrow> path \<Rightarrow> bool \<Rightarrow> path \<Rightarrow> string list \<Rightarrow> run_state \<Rightarrow>
     (error \<times> run_state) + run_state" where
  "process_files env cfg output_dir dry_run root [] s = Inr s"
| "process_files env cfg output_dir dry_run root (filename # rest) s =
     (if \<exists>processed \<in> processed_projects s. processed \<in> set (path_parents (root @ [filename]))
      then process_files env cfg output_dir dry_run root rest s
      else (case categorize_and_move_file env cfg (disk s) (root @ [filename]) output_dir dry_run of
              Inl e \<Rightarrow> Inl (e, s)
            | Inr (ok, fs', ev) \<Rightarrow>
                process_files env cfg output_dir dry_run root rest
                  (s\<lparr> disk := fs',
                      log := log s @ ev,
                      progress := count_processed False ok (progress s) \<rparr>)))"

text \<open>\<^verbatim>\<open>directories_to_check.add(p)\<close>.\<close>

definition add_candidate :: "path \<Rightarrow> path list \<Rightarrow> path list" where
  "add_candidate p ps = (if p \<in> set ps then ps else ps @ [p])"

text \<open>A \<^verbatim>\<open>for\<close> loop whose body may raise: the exception leaves the loop with the state
  reached.\<close>

fun for_each :: "('a \<Rightarrow> 's \<Rightarrow> ('e \<times> 's) + 's) \<Rightarrow> 'a list \<Rightarrow> 's \<Rightarrow> ('e \<times> 's) + 's" where
  "for_each body [] s = Inr s"
| "for_each body (x # xs) s =
     (case body x s of
        Inl es \<Rightarrow> Inl es
      | Inr s' \<Rightarrow> for_each body xs s')"

lemma for_each_cong [fundef_cong]:
  "xs = ys \<Longrightarrow> s = t \<Longrightarrow> (\<And>x u. x \<in> set ys \<Longrightarrow> f x u = g x u) \<Longrightarrow> for_each f xs s = for_each g ys t"
proof (induction ys arbitrary: xs s t)
  case Nil
  then show ?case by simp
next
  case (Cons y ys)
  then show ?case by (auto split: sum.splits)
qed

text \<open>\<^verbatim>\<open>os.scandir\<close> as \<^verbatim>\<open>os.walk\<close> uses it: the names of the subdirectories and of the other
  entries of a directory, or no answer where the call raises, which \<^verbatim>\<open>os.walk\<close> ignores:
  the path is missing, is a file or cannot be listed. \<^verbatim>\<open>os.walk\<close> hands the path over as a
  string, and the operating system refuses a path string of \<open>PATH_MAX\<close> bytes or more.\<close>

definition PATH_MAX :: nat where
  "PATH_MAX = 4096"

definition path_str_len :: "path \<Rightarrow> nat" where
  "path_str_len p = sum_list (map (\<lambda>c. Suc (length c)) p)"

definition scandir :: "node \<Rightarrow> path \<Rightarrow> (string list \<times> string list) option" where
  "scandir fs p =
     (if PATH_MAX \<le> path_str_len p then None
      else case lookup fs p of
        Some (Dir r cs) \<Rightarrow>
          if r then Some (map fst (filter (\<lambda>(n, c). is_dir_node c) cs),
                          map fst (filter (\<lambda>(n, c). \<not> is_dir_node c) cs))
          else None
      | Some (File c) \<Rightarrow> None
      | None \<Rightarrow> None)"

text \<open>Phase 2, \<^verbatim>\<open>os.walk(input_dir, topdown=True)\<close> with the body of the loop. The walk
  lists a directory when it reaches it, in the file system as it then is; it hands the
  listing to the body and afterwards goes into the subdirectories of that listing, one
  after the other. The body empties the list of subdirectories at a directory under a
  processed project. The bound on the length of a path is what makes the walk end whatever
  the moves put into its way.\<close>

function walk_files ::
  "platform \<Rightarrow> config \<Rightarrow> path \<Rightarrow> bool \<Rightarrow> bool \<Rightarrow> path \<Rightarrow> run_state \<Rightarrow> (error \<times> run_state) + run_state" where
  "walk_files env cfg output_dir dry_run delete_empty_dirs root s =
     (case scandir (disk s) root of
        None \<Rightarrow> Inr s
      | Some (dirs, files) \<Rightarrow>
          if under_processed (processed_projects s) root then Inr s
          else (case process_files env cfg output_dir dry_run root files
                       (if delete_empty_dirs
                        then s\<lparr> directories_to_check := add_candidate root (directories_to_check s) \<rparr>
                        else s) of
                  Inl es \<Rightarrow> Inl es
                | Inr s' \<Rightarrow>
                    for_each
                      (\<lambda>dir_name. walk_files env cfg output_dir dry_run delete_empty_dirs (root @ [dir_name]))
                      dirs s'))"
  by pat_completeness auto
termination
proof (relation "measure (\<lambda>(env, cfg, output_dir, dry_run, delete_empty_dirs, root, s).
                            PATH_MAX - path_str_len root)")
  show "wf (measure (\<lambda>(env, cfg, output_dir, dry_run, delete_empty_dirs, root, s).
                       PATH_MAX - path_str_len root))"
    by simp
next
  fix env :: platform and cfg :: config and output_dir :: path and dry_run delete_empty_dirs :: bool
    and root :: path and s u :: run_state and x2 :: "string list \<times> string list"
    and dir_name :: string
  assume "scandir (disk s) root = Some x2"
  then have "path_str_len root < PATH_MAX"
    by (auto simp: scandir_def split: if_splits)
  then show "((env, cfg, output_dir, dry_run, delete_empty_dirs, root @ [dir_name], u),
              (env, cfg, output_dir, dry_run, delete_empty_dirs, root, s))
      \<in> measure (\<lambda>(env, cfg, output_dir, dry_run, delete_empty_dirs, root, s).
                    PATH_MAX - path_str_len root)"
    by (simp add: path_str_len_def)
qed

declare walk_files.simps [simp del]

text \<open>How a run ends: rejected by the path validation, left by an exception that the
  last \<^verbatim>\<open>except Exception\<close> catches, or completed.\<close>

datatype outcome =
    Rejected error
  | Aborted error run_state
  | Completed run_state

definition initial_state :: "node \<Rightarrow> path \<Rightarrow> run_state" where
  "initial_state fs input_dir =
     \<lparr> disk = fs,
       progress = \<lparr> total_items = count_items_to_process fs input_dir, processed_items = 0,
                    projects_moved = 0, files_moved = 0, errors = 0 \<rparr>,
       processed_projects = {},
       directories_to_check = [],
       log = [] \<rparr>"

definition reclaim :: "platform \<Rightarrow> path \<Rightarrow> bool \<Rightarrow> run_state \<Rightarrow> run_state" where
  "reclaim env input_dir dry_run s =
     (case cleanup_empty_directories env (disk s) input_dir (directories_to_check s) dry_run of
        (deleted_dirs, fs', ev) \<Rightarrow> s\<lparr> disk := fs', log := log s @ ev \<rparr>)"

definition sort_files_run ::
  "platform \<Rightarrow> config \<Rightarrow> node \<Rightarrow> path \<Rightarrow> path option \<Rightarrow> bool \<Rightarrow> bool \<Rightarrow> outcome" where
  "sort_files_run env cfg fs input_dir_arg output_opt dry_run delete_empty_dirs =
     (case validate_input_paths fs input_dir_arg output_opt of
        Inl e \<Rightarrow> Rejected e
      | Inr (input_dir, output_dir) \<Rightarrow>
          let s0 = initial_state fs input_dir;
              projects_to_move = identify_projects cfg fs input_dir (processed_projects s0)
          in (case relocate_projects env output_dir dry_run projects_to_move s0 of
                Inl (e, s) \<Rightarrow> Aborted e s
              | Inr s1 \<Rightarrow>
                  (case walk_files env cfg output_dir dry_run delete_empty_dirs input_dir s1 of
                     Inl (e, s) \<Rightarrow> Aborted e s
                   | Inr s2 \<Rightarrow>
                       Completed (if delete_empty_dirs then reclaim env input_dir dry_run s2 else s2))))"


subsection \<open>Example file systems\<close>

text \<open>An output directory in which \<open>test.txt\<close> and \<open>test (1).txt\<close> are taken.\<close>

definition two_collisions :: node where
  "two_collisions =
     Dir True [(''out'', Dir True [(''test.txt'', File ''a''), (''test (1).txt'', File ''b'')])]"

text \<open>A root directory in which \<open>t\<close> and each of \<open>t (1)\<close>, ..., \<open>t (10000)\<close> is taken.\<close>

definition crowded :: node where
  "crowded =
     Dir True ((''t'', File []) #
               map (\<lambda>n. (last (numbered_path [''t''] n), File [])) [1..<10001])"

subsection \<open>Well-formed trees and sets of unrelated paths\<close>

text \<open>In a directory of a real file system no two entries share a name.\<close>

fun wf_node :: "node \<Rightarrow> bool" where
  "wf_node (File c) = True"
| "wf_node (Dir r cs) = (distinct (map fst cs) \<and> (\<forall>e \<in> set cs. wf_node (snd e)))"

text \<open>A list of paths without repetition in which none is an ancestor of another.\<close>

definition antichain :: "path list \<Rightarrow> bool" where
  "antichain ps = (distinct ps \<and> (\<forall>p \<in> set ps. \<forall>q \<in> set ps. prefix p q \<longrightarrow> p = q))"

text \<open>An input tree with loose files, two projects (one holding a project-like
  subdirectory of its own, one below a plain directory) and an empty application bundle.\<close>

definition sample_fs :: node where
  "sample_fs = Dir True [(''in'', Dir True
     [(''report.txt'', File ''r''),
      (''photo.jpg'', File ''p''),
      (''proj'', Dir True
         [(''.git'', Dir True []), (''main.py'', File ''m''),
          (''vendor'', Dir True [(''node_modules'', Dir True [])])]),
      (''a'', Dir True [(''file.txt'', File ''1'')]),
      (''b'', Dir True
         [(''file.txt'', File ''2''),
          (''web'', Dir True [(''node_modules'', Dir True []), (''index.js'', File ''j'')])]),
      (''Foo.app'', Dir True [])])]"

text \<open>An input directory with one file, for a run whose output lies inside the input.\<close>

definition nested_fs :: node where
  "nested_fs = Dir True [(''in'', Dir True [(''a.txt'', File ''x'')])]"

text \<open>An input directory with an empty bundle \<open>Foo.app\<close> and a bundle \<open>Bar.app\<close> holding one
  directory that is no marker.\<close>

definition bundles_fs :: node where
  "bundles_fs =
     Dir True [(''in'', Dir True
       [(''Foo.app'', Dir True []),
        (''Bar.app'', Dir True [(''Contents'', Dir True [])])])]"

subsection \<open>Names at the limit of the file system\<close>

text \<open>A platform as \<open>quiet\<close> on which \<^verbatim>\<open>Path.exists()\<close> raises for a path with a component of
  more than 255 bytes, the limit of the common file systems (\<^verbatim>\<open>ENAMETOOLONG\<close>); a file name
  of 252 bytes, whose numbered variants have 256 and more; an output directory that holds a
  file of that name; an input tree with two files of that name and a third file.\<close>

definition name_limit :: platform where
  "name_limit = quiet\<lparr> exists_raises := (\<lambda>p. \<exists>c \<in> set p. 255 < length c) \<rparr>"

definition long_name :: string where
  "long_name = replicate 248 (CHR ''a'') @ ''.txt''"

definition long_out :: node where
  "long_out = Dir True [(''out'', Dir True [(long_name, File ''1'')])]"



subsection \<open>The state a loop ends in\<close>

text \<open>The state in which a loop that may raise has ended, by the exception or without it.\<close>

fun final_state :: "('e \<times> 's) + 's \<Rightarrow> 's" where
  "final_state (Inl (e, s)) = s"
| "final_state (Inr s) = s"

subsection \<open>Reading the log and the counters\<close>













section \<open>Properties\<close>

subsection \<open>The category resolver\<close>

lemma rfind_nonneg_iff: "0 \<le> rfind ch s \<longleftrightarrow> ch \<in> set s"
  by (induction s) (auto simp: Let_def)

lemma rfind_none: "ch \<notin> set s \<Longrightarrow> rfind ch s = - 1"
  by (induction s) (auto simp: Let_def)

lemma rfind_less: "rfind ch s < int (length s)"
  by (induction s) (auto simp: Let_def)

lemma rfind_pos_iff: "0 < rfind ch s \<longleftrightarrow> ch \<in> set (tl s)"
proof (cases s)
  case Nil
  then show ?thesis by simp
next
  case (Cons x xs)
  have "0 \<le> rfind ch xs \<longleftrightarrow> ch \<in> set xs" by (rule rfind_nonneg_iff)
  then show ?thesis using Cons by (auto simp: Let_def)
qed

lemma drop_rfind:
  "ch \<in> set s \<Longrightarrow> drop (nat (rfind ch s)) s = ch # rev (takeWhile (\<lambda>c. c \<noteq> ch) (rev s))"
proof (induction s)
  case Nil
  then show ?case by simp
next
  case (Cons x xs)
  show ?case
  proof (cases "ch \<in> set xs")
    case True
    then have nn: "0 \<le> rfind ch xs" by (simp add: rfind_nonneg_iff)
    then have n: "nat (rfind ch xs + 1) = Suc (nat (rfind ch xs))" by simp
    have r: "rfind ch (x # xs) = rfind ch xs + 1" using nn by (simp add: Let_def)
    have t: "takeWhile (\<lambda>c. c \<noteq> ch) (rev (x # xs)) = takeWhile (\<lambda>c. c \<noteq> ch) (rev xs)"
      using True by (auto simp: takeWhile_append)
    show ?thesis using Cons.IH [OF True] by (simp only: r n t drop_Suc_Cons)
  next
    case False
    with Cons.prems have x: "x = ch" by simp
    have r: "rfind ch (x # xs) = 0" using False x by (simp add: Let_def rfind_none)
    have t: "takeWhile (\<lambda>c. c \<noteq> ch) (rev (x # xs)) = rev xs"
      using False x by (simp add: takeWhile_append)
    show ?thesis unfolding r t using x by simp
  qed
qed

lemma ascii_lower_char_dot: "ascii_lower_char c = CHR ''.'' \<longleftrightarrow> c = CHR ''.''"
  by (auto simp: ascii_lower_char_def split: option.splits if_splits)

lemma ascii_lower_no_dot: "CHR ''.'' \<notin> set e \<Longrightarrow> CHR ''.'' \<notin> set (ascii_lower e)"
proof
  assume a: "CHR ''.'' \<notin> set e" and "CHR ''.'' \<in> set (ascii_lower e)"
  then obtain c where "c \<in> set e" and "ascii_lower_char c = CHR ''.''"
    by (auto simp: ascii_lower_def)
  then show False using a by (simp add: ascii_lower_char_dot)
qed

lemma ascii_lower_around_dots: "lowers_around_dots ascii_lower"
  unfolding lowers_around_dots_def
proof (intro conjI allI impI)
  show "ascii_lower [] = []" by (simp add: ascii_lower_def)
next
  fix s show "ascii_lower (CHR ''.'' # s) = CHR ''.'' # ascii_lower s"
    by (simp add: ascii_lower_def ascii_lower_char_def)
next
  fix s assume "CHR ''.'' \<notin> set s"
  then show "CHR ''.'' \<notin> set (ascii_lower s)" by (rule ascii_lower_no_dot)
qed

lemma lstrip_lower_suffix:
  assumes "lowers_around_dots lw" and "CHR ''.'' \<notin> set e"
  shows "lstrip (CHR ''.'') (lw (CHR ''.'' # e)) = lw e"
proof -
  have "CHR ''.'' \<notin> set (lw e)"
    using assms by (simp add: lowers_around_dots_def)
  then have "dropWhile (\<lambda>c. c = CHR ''.'') (lw e) = lw e"
    by (cases "lw e") auto
  moreover have "lw (CHR ''.'' # e) = CHR ''.'' # lw e"
    using assms(1) by (simp add: lowers_around_dots_def)
  ultimately show ?thesis by (simp add: lstrip_def)
qed

lemma extension_eq:
  assumes lw: "lowers_around_dots (str_lower env)"
  shows "lstrip (CHR ''.'') (str_lower env (suffix_of name)) = resolver_extension env name"
proof (cases "CHR ''.'' \<in> set name")
  case False
  have "str_lower env [] = []" using lw by (simp add: lowers_around_dots_def)
  with False show ?thesis
    by (simp add: suffix_of_def rfind_none resolver_extension_def spec_extension_def lstrip_def)
next
  case True
  define e where "e = rev (takeWhile (\<lambda>c. c \<noteq> CHR ''.'') (rev name))"
  define i where "i = rfind (CHR ''.'') name"
  have d: "drop (nat i) name = CHR ''.'' # e"
    unfolding e_def i_def using True by (rule drop_rfind)
  have nodot: "CHR ''.'' \<notin> set e"
    unfolding e_def by (auto dest: set_takeWhileD)
  have i0: "0 \<le> i" unfolding i_def using True by (simp add: rfind_nonneg_iff)
  have "length (drop (nat i) name) = Suc (length e)"
    using d by simp
  then have len: "int (length name) = i + 1 + int (length e)"
    using i0 by simp
  have last_iff: "i < int (length name) - 1 \<longleftrightarrow> e \<noteq> []"
    using len by (cases e) auto
  have pos_iff: "0 < i \<longleftrightarrow> CHR ''.'' \<in> set (tl name)"
    unfolding i_def by (rule rfind_pos_iff)
  have se: "spec_extension env name = (if e = [] then None else Some (str_lower env e))"
    using True by (simp add: spec_extension_def e_def Let_def)
  show ?thesis
  proof (cases "0 < i \<and> e \<noteq> []")
    case True
    then have "suffix_of name = CHR ''.'' # e"
      using d last_iff by (simp add: suffix_of_def i_def [symmetric])
    moreover have "resolver_extension env name = str_lower env e"
      using True pos_iff by (simp add: resolver_extension_def se)
    ultimately show ?thesis
      using lstrip_lower_suffix [OF lw nodot] by simp
  next
    case False
    then have "suffix_of name = []"
      using last_iff by (auto simp: suffix_of_def i_def [symmetric])
    moreover have "resolver_extension env name = []"
      using False pos_iff by (auto simp: resolver_extension_def se)
    moreover have "str_lower env [] = []" using lw by (simp add: lowers_around_dots_def)
    ultimately show ?thesis
      by (simp add: lstrip_def)
  qed
qed

text \<open>
  C5, as the specification states it, fails on a name whose only \<open>.\<close> is its first
  character: what follows the last \<open>.\<close> of \<open>.txt\<close> is \<open>txt\<close>, a key of the default table,
  yet \<^verbatim>\<open>Path('.txt').suffix\<close> is empty and the resolver answers with the default category.
\<close>

theorem get_category_for_file_dotfile_counterexample:
  "get_category_for_file quiet default_config ''.txt'' = ''Miscellaneous/Other'' \<and>
   spec_category quiet default_config ''.txt'' = ''Documents/Text''"
  by (simp add: get_category_for_file_def default_config_def lstrip_def quiet_def ascii_lower_def
      ascii_lower_char_def suffix_of_def name_of_string_def path_parts_def spec_category_def
      spec_extension_def)

text \<open>
  C5, amended. The resolver is a function of the file name and the configuration alone:
  the extension is what follows the last \<open>.\<close> of the name, lower-cased by \<^verbatim>\<open>str.lower\<close>, and
  it is the empty string when the name has no \<open>.\<close>, when nothing follows the last \<open>.\<close>, or
  when the last \<open>.\<close> is the first character of the name; the result is the table's entry
  for that extension when there is one and the default category otherwise. This holds for
  every file name and for every lower-casing function that leaves the empty string empty
  and treats \<open>.\<close> as \<^verbatim>\<open>str.lower\<close> does, so for names of any script.
\<close>

theorem get_category_for_file_resolves:
  assumes "lowers_around_dots (str_lower env)"
  shows "get_category_for_file env cfg filename =
     (case FILE_CATEGORIES cfg (resolver_extension env (name_of_string filename)) of
        Some category \<Rightarrow> category
      | None \<Rightarrow> DEFAULT_CATEGORY cfg)"
  by (simp add: get_category_for_file_def extension_eq [OF assms])

text \<open>With the lower-casing of ASCII letters, \<open>REPORT.TXT\<close> has the extension \<open>txt\<close> and maps
  to \<open>Documents/Text\<close> under the table \<open>txt \<mapsto> Documents/Text\<close>.\<close>

theorem get_category_for_file_resolves_witness:
  "lowers_around_dots (str_lower quiet) \<and>
   resolver_extension quiet (name_of_string ''REPORT.TXT'') = ''txt'' \<and>
   get_category_for_file quiet default_config ''REPORT.TXT'' = ''Documents/Text''"
proof -
  have l: "lowers_around_dots (str_lower quiet)"
    using ascii_lower_around_dots by (simp add: quiet_def)
  have e: "resolver_extension quiet (name_of_string ''REPORT.TXT'') = ''txt''"
    by (simp add: resolver_extension_def spec_extension_def quiet_def ascii_lower_def
        ascii_lower_char_def name_of_string_def path_parts_def)
  have "get_category_for_file quiet default_config ''REPORT.TXT'' =
     (case FILE_CATEGORIES default_config ''txt'' of
        Some category \<Rightarrow> category
      | None \<Rightarrow> DEFAULT_CATEGORY default_config)"
    using get_category_for_file_resolves [OF l, of default_config "''REPORT.TXT''"]
    by (simp only: e)
  then have "get_category_for_file quiet default_config ''REPORT.TXT'' = ''Documents/Text''"
    by (simp add: default_config_def)
  with l e show ?thesis by (intro conjI)
qed

subsection \<open>The unique-name generator\<close>

lemma unique_loop_found:
  assumes "c \<le> n" and "n \<le> 10000"
    and "\<forall>m. c \<le> m \<and> m \<le> n \<longrightarrow> \<not> exists_raises env (numbered_path t m)"
    and "\<not> path_exists fs (numbered_path t n)"
    and "\<forall>m. c \<le> m \<and> m < n \<longrightarrow> path_exists fs (numbered_path t m)"
  shows "unique_loop env fs t c = Inr (numbered_path t n, [])"
  using assms
proof (induction "n - c" arbitrary: c)
  case 0
  then have "c = n" by simp
  with 0 show ?case by (simp add: unique_loop.simps exists_def)
next
  case (Suc k)
  then have lt: "c < n" by simp
  with Suc.prems have ex: "path_exists fs (numbered_path t c)"
    and nr: "\<not> exists_raises env (numbered_path t c)" by simp_all
  have "unique_loop env fs t (c + 1) = Inr (numbered_path t n, [])"
    using Suc.hyps Suc.prems lt by (intro Suc.hyps(1)) auto
  moreover have "\<not> c + 1 > 10000" using lt Suc.prems by simp
  ultimately show ?case
    using ex nr by (subst unique_loop.simps) (simp add: exists_def)
qed

lemma unique_loop_raises:
  assumes "c \<le> n" and "n \<le> 10000"
    and "exists_raises env (numbered_path t n)"
    and "\<forall>m. c \<le> m \<and> m < n \<longrightarrow>
           \<not> exists_raises env (numbered_path t m) \<and> path_exists fs (numbered_path t m)"
  shows "unique_loop env fs t c = Inl OSError"
  using assms
proof (induction "n - c" arbitrary: c)
  case 0
  then have "c = n" by simp
  with 0 show ?case by (simp add: unique_loop.simps exists_def)
next
  case (Suc k)
  then have lt: "c < n" by simp
  with Suc.prems have ex: "path_exists fs (numbered_path t c)"
    and nr: "\<not> exists_raises env (numbered_path t c)" by simp_all
  have "unique_loop env fs t (c + 1) = Inl OSError"
    using Suc.hyps Suc.prems lt by (intro Suc.hyps(1)) auto
  moreover have "\<not> c + 1 > 10000" using lt Suc.prems by simp
  ultimately show ?case
    using ex nr by (subst unique_loop.simps) (simp add: exists_def)
qed

lemma unique_loop_exhausted:
  assumes "c \<le> 10000"
    and "\<forall>m. c \<le> m \<and> m \<le> 10000 \<longrightarrow>
           \<not> exists_raises env (numbered_path t m) \<and> path_exists fs (numbered_path t m)"
  shows "unique_loop env fs t c = Inr (t, [TooManyCollisions t])"
  using assms
proof (induction "10000 - c" arbitrary: c)
  case 0
  then have "c = 10000" by simp
  with 0 show ?case by (subst unique_loop.simps) (simp add: exists_def)
next
  case (Suc k)
  then have lt: "c < 10000" by simp
  with Suc.prems have ex: "path_exists fs (numbered_path t c)"
    and nr: "\<not> exists_raises env (numbered_path t c)" by simp_all
  have "unique_loop env fs t (c + 1) = Inr (t, [TooManyCollisions t])"
    using Suc.hyps Suc.prems lt by (intro Suc.hyps(1)) auto
  then show ?case
    using ex nr lt by (subst unique_loop.simps) (simp add: exists_def)
qed

text \<open>
  C6 says that for a taken target the generator returns the numbered path of the smallest
  \<open>n\<close> whose path is unoccupied. Each probe is a call of \<^verbatim>\<open>Path.exists()\<close>, which raises
  where the operating system answers with an error other than a missing entry, and the
  generator catches nothing. With an output directory that holds a file whose name has 252
  bytes, the first numbered path is unoccupied, its name has 256 bytes, and the generator
  raises instead of returning it.
\<close>

theorem generate_unique_filename_raises_counterexample:
  "path_exists long_out [''out'', long_name] \<and>
   \<not> path_exists long_out (numbered_path [''out'', long_name] 1) \<and>
   length (path_name (numbered_path [''out'', long_name] 1)) = 256 \<and>
   generate_unique_filename name_limit long_out [''out'', long_name] = Inl OSError"
  by code_simp

text \<open>
  C6, amended. The generator ends for every platform, file system and target, with a path
  or with the exception of a probe. It probes the target, then the numbered paths
  \<open>{stem} (1){suffix}\<close>, \<open>{stem} (2){suffix}\<close>, ... in this order, up to 10000. If a probe
  raises, the generator raises. If no probe made raises: a free target is returned
  unchanged; for a taken target the numbered path of the smallest \<open>n \<ge> 1\<close> that is free is
  returned; if the target and all 10000 numbered paths are taken, the target itself is
  returned after an error has been logged.
\<close>

theorem generate_unique_filename_spec:
  "(exists_raises env t \<longrightarrow> generate_unique_filename env fs t = Inl OSError) \<and>
   (\<not> exists_raises env t \<and> \<not> path_exists fs t \<longrightarrow>
      generate_unique_filename env fs t = Inr (t, [])) \<and>
   (\<not> exists_raises env t \<and> path_exists fs t \<longrightarrow>
      (\<forall>n. 1 \<le> n \<and> n \<le> 10000 \<and>
           (\<forall>m. 1 \<le> m \<and> m \<le> n \<longrightarrow> \<not> exists_raises env (numbered_path t m)) \<and>
           \<not> path_exists fs (numbered_path t n) \<and>
           (\<forall>m. 1 \<le> m \<and> m < n \<longrightarrow> path_exists fs (numbered_path t m)) \<longrightarrow>
           generate_unique_filename env fs t = Inr (numbered_path t n, [])) \<and>
      (\<forall>n. 1 \<le> n \<and> n \<le> 10000 \<and> exists_raises env (numbered_path t n) \<and>
           (\<forall>m. 1 \<le> m \<and> m < n \<longrightarrow>
              \<not> exists_raises env (numbered_path t m) \<and> path_exists fs (numbered_path t m)) \<longrightarrow>
           generate_unique_filename env fs t = Inl OSError) \<and>
      ((\<forall>n. 1 \<le> n \<and> n \<le> 10000 \<longrightarrow>
           \<not> exists_raises env (numbered_path t n) \<and> path_exists fs (numbered_path t n)) \<longrightarrow>
           generate_unique_filename env fs t = Inr (t, [TooManyCollisions t]))) \<and>
   numbered_path (parent @ [name]) n =
      parent @ [stem_of name @ '' ('' @ str_nat n @ '')'' @ suffix_of name]"
proof (intro conjI impI allI)
  assume "exists_raises env t"
  then show "generate_unique_filename env fs t = Inl OSError"
    by (simp add: generate_unique_filename_def exists_def)
next
  assume "\<not> exists_raises env t \<and> \<not> path_exists fs t"
  then show "generate_unique_filename env fs t = Inr (t, [])"
    by (simp add: generate_unique_filename_def exists_def)
next
  fix n
  assume e: "\<not> exists_raises env t \<and> path_exists fs t"
    and n: "1 \<le> n \<and> n \<le> 10000 \<and>
           (\<forall>m. 1 \<le> m \<and> m \<le> n \<longrightarrow> \<not> exists_raises env (numbered_path t m)) \<and>
           \<not> path_exists fs (numbered_path t n) \<and>
           (\<forall>m. 1 \<le> m \<and> m < n \<longrightarrow> path_exists fs (numbered_path t m))"
  have "unique_loop env fs t 1 = Inr (numbered_path t n, [])"
    using n by (intro unique_loop_found) auto
  then show "generate_unique_filename env fs t = Inr (numbered_path t n, [])"
    using e by (simp add: generate_unique_filename_def exists_def)
next
  fix n
  assume e: "\<not> exists_raises env t \<and> path_exists fs t"
    and n: "1 \<le> n \<and> n \<le> 10000 \<and> exists_raises env (numbered_path t n) \<and>
           (\<forall>m. 1 \<le> m \<and> m < n \<longrightarrow>
              \<not> exists_raises env (numbered_path t m) \<and> path_exists fs (numbered_path t m))"
  have "unique_loop env fs t 1 = Inl OSError"
    using n by (intro unique_loop_raises [of 1 n]) auto
  then show "generate_unique_filename env fs t = Inl OSError"
    using e by (simp add: generate_unique_filename_def exists_def)
next
  assume e: "\<not> exists_raises env t \<and> path_exists fs t"
    and a: "\<forall>n. 1 \<le> n \<and> n \<le> 10000 \<longrightarrow>
           \<not> exists_raises env (numbered_path t n) \<and> path_exists fs (numbered_path t n)"
  have "unique_loop env fs t 1 = Inr (t, [TooManyCollisions t])"
    using a by (intro unique_loop_exhausted) auto
  then show "generate_unique_filename env fs t = Inr (t, [TooManyCollisions t])"
    using e by (simp add: generate_unique_filename_def exists_def)
next
  show "numbered_path (parent @ [name]) n =
      parent @ [stem_of name @ '' ('' @ str_nat n @ '')'' @ suffix_of name]"
    by (simp add: numbered_path_def join_name_def path_parent_def path_name_def)
qed

lemma map_of_const: "k \<in> set ks \<Longrightarrow> map_of (map (\<lambda>n. (f n, c)) ks) (f k) = Some c"
  by (induction ks) auto

lemma numbered_single: "numbered_path [x] n = [last (numbered_path [x] n)]"
  by (simp add: numbered_path_def join_name_def path_parent_def)

lemma crowded_all: "1 \<le> n \<and> n \<le> 10000 \<Longrightarrow> path_exists crowded (numbered_path [''t''] n)"
proof -
  assume n: "1 \<le> n \<and> n \<le> 10000"
  let ?k = "last (numbered_path [''t''] n)"
  have "n \<in> set [1..<10001]" using n by simp
  then have m: "map_of (map (\<lambda>n. (last (numbered_path [''t''] n), File [])) [1..<10001]) ?k = Some (File [])"
    by (rule map_of_const)
  have "lookup crowded [?k] \<noteq> None"
    using m by (simp add: crowded_def)
  then show ?thesis
    using numbered_single [of "''t''" n] by (simp add: path_exists_def)
qed

text \<open>The cases at concrete file systems: a free name, the specification's
  \<open>test.txt\<close> with \<open>test (1).txt\<close> taken, a directory in which every numbered name is taken,
  and a target for which the probe raises.\<close>

theorem generate_unique_filename_spec_witness:
  "generate_unique_filename quiet two_collisions [''out'', ''new.txt''] = Inr ([''out'', ''new.txt''], []) \<and>
   generate_unique_filename quiet two_collisions [''out'', ''test.txt''] =
     Inr ([''out'', ''test (2).txt''], []) \<and>
   generate_unique_filename quiet crowded [''t''] = Inr ([''t''], [TooManyCollisions [''t'']]) \<and>
   generate_unique_filename name_limit long_out [''out'', replicate 256 (CHR ''b'')] = Inl OSError"
proof (intro conjI)
  have q: "\<And>p. \<not> exists_raises quiet p" by (simp add: quiet_def)
  have "\<not> path_exists two_collisions [''out'', ''new.txt'']"
    by (simp add: path_exists_def two_collisions_def)
  then show "generate_unique_filename quiet two_collisions [''out'', ''new.txt''] =
      Inr ([''out'', ''new.txt''], [])"
    using generate_unique_filename_spec [of quiet "[''out'', ''new.txt'']" two_collisions] q by simp
next
  have q: "\<And>p. \<not> exists_raises quiet p" by (simp add: quiet_def)
  have n1: "numbered_path [''out'', ''test.txt''] 1 = [''out'', ''test (1).txt'']"
    by (simp add: numbered_path_def join_name_def path_parent_def path_name_def stem_of_def suffix_of_def)
  have n2: "numbered_path [''out'', ''test.txt''] 2 = [''out'', ''test (2).txt'']"
    by (simp add: numbered_path_def join_name_def path_parent_def path_name_def stem_of_def suffix_of_def)
  have e: "path_exists two_collisions [''out'', ''test.txt'']"
    by (simp add: path_exists_def two_collisions_def)
  have e1: "path_exists two_collisions (numbered_path [''out'', ''test.txt''] 1)"
    unfolding n1 by (simp add: path_exists_def two_collisions_def)
  have e2: "\<not> path_exists two_collisions (numbered_path [''out'', ''test.txt''] 2)"
    unfolding n2 by (simp add: path_exists_def two_collisions_def)
  have a: "\<forall>m. 1 \<le> m \<and> m < (2::nat) \<longrightarrow> path_exists two_collisions (numbered_path [''out'', ''test.txt''] m)"
  proof (intro allI impI)
    fix m :: nat assume "1 \<le> m \<and> m < 2"
    then have "m = 1" by simp
    then show "path_exists two_collisions (numbered_path [''out'', ''test.txt''] m)" using e1 by simp
  qed
  have "generate_unique_filename quiet two_collisions [''out'', ''test.txt''] =
          Inr (numbered_path [''out'', ''test.txt''] 2, [])"
    using generate_unique_filename_spec [of quiet "[''out'', ''test.txt'']" two_collisions] e e2 a q
    by (auto simp del: One_nat_def)
  then show "generate_unique_filename quiet two_collisions [''out'', ''test.txt''] =
      Inr ([''out'', ''test (2).txt''], [])"
    by (simp only: n2)
next
  have q: "\<And>p. \<not> exists_raises quiet p" by (simp add: quiet_def)
  have "path_exists crowded [''t'']"
    by (simp add: path_exists_def crowded_def)
  then show "generate_unique_filename quiet crowded [''t''] = Inr ([''t''], [TooManyCollisions [''t'']])"
    using generate_unique_filename_spec [of quiet "[''t'']" crowded] crowded_all q by blast
next
  have "exists_raises name_limit [''out'', replicate 256 (CHR ''b'')]"
    by (simp add: name_limit_def)
  then show "generate_unique_filename name_limit long_out [''out'', replicate 256 (CHR ''b'')] = Inl OSError"
    using generate_unique_filename_spec [of name_limit "[''out'', replicate 256 (CHR ''b'')]" long_out]
    by blast
qed

subsection \<open>What every step keeps, the loops keep\<close>

lemma for_each_invariant:
  assumes "I s" and "\<And>x u. x \<in> set xs \<Longrightarrow> I u \<Longrightarrow> I (final_state (body x u))"
  shows "I (final_state (for_each body xs s))"
  using assms
proof (induction xs arbitrary: s)
  case Nil
  then show ?case by simp
next
  case (Cons x xs)
  have ix: "I (final_state (body x s))" using Cons.prems by simp
  show ?case
  proof (cases "body x s")
    case (Inl es)
    with ix show ?thesis by simp
  next
    case (Inr s')
    with ix have "I s'" by simp
    then have "I (final_state (for_each body xs s'))"
      using Cons.prems(2) by (intro Cons.IH) simp_all
    with Inr show ?thesis by simp
  qed
qed

lemma relocate_projects_invariant:
  assumes "I s"
    and "\<And>u source_path destination ok fs' ev.
           I u \<Longrightarrow> (source_path, destination) \<in> set projs \<Longrightarrow>
           move_project env (disk u) source_path destination output_dir dry_run = Inr (ok, fs', ev) \<Longrightarrow>
           I (u\<lparr> disk := fs', log := log u @ ev,
                 processed_projects :=
                   (if ok then insert source_path (processed_projects u) else processed_projects u),
                 progress := count_processed True ok (progress u) \<rparr>)"
  shows "I (final_state (relocate_projects env output_dir dry_run projs s))"
  using assms
proof (induction projs arbitrary: s)
  case Nil
  then show ?case by simp
next
  case (Cons pd projs)
  obtain source_path destination where pd: "pd = (source_path, destination)" by (cases pd)
  show ?case
  proof (cases "move_project env (disk s) source_path destination output_dir dry_run")
    case (Inl e)
    with Cons.prems(1) pd show ?thesis by simp
  next
    case (Inr r)
    obtain ok fs' ev where r: "r = (ok, fs', ev)" by (cases r)
    define s1 where "s1 = s\<lparr> disk := fs', log := log s @ ev,
        processed_projects := (if ok then insert source_path (processed_projects s) else processed_projects s),
        progress := count_processed True ok (progress s) \<rparr>"
    have m: "move_project env (disk s) source_path destination output_dir dry_run = Inr (ok, fs', ev)"
      using Inr r by simp
    have "I s1"
      unfolding s1_def
      by (rule Cons.prems(2) [OF Cons.prems(1) _ m]) (simp add: pd)
    then have "I (final_state (relocate_projects env output_dir dry_run projs s1))"
    proof (rule Cons.IH)
      fix u sp dst ok' fs'' ev'
      assume u: "I u" and mem: "(sp, dst) \<in> set projs"
        and mv: "move_project env (disk u) sp dst output_dir dry_run = Inr (ok', fs'', ev')"
      from mem have mem': "(sp, dst) \<in> set (pd # projs)" by simp
      show "I (u\<lparr> disk := fs'', log := log u @ ev',
                 processed_projects :=
                   (if ok' then insert sp (processed_projects u) else processed_projects u),
                 progress := count_processed True ok' (progress u) \<rparr>)"
        by (rule Cons.prems(2) [OF u mem' mv])
    qed
    moreover have "relocate_projects env output_dir dry_run (pd # projs) s =
        relocate_projects env output_dir dry_run projs s1"
      unfolding pd s1_def using m by simp
    ultimately show ?thesis by simp
  qed
qed

lemma process_files_invariant:
  assumes "I s"
    and "\<And>u filename ok fs' ev.
           I u \<Longrightarrow> filename \<in> set files \<Longrightarrow>
           \<not> (\<exists>processed \<in> processed_projects u. processed \<in> set (path_parents (root @ [filename]))) \<Longrightarrow>
           categorize_and_move_file env cfg (disk u) (root @ [filename]) output_dir dry_run =
             Inr (ok, fs', ev) \<Longrightarrow>
           I (u\<lparr> disk := fs', log := log u @ ev, progress := count_processed False ok (progress u) \<rparr>)"
  shows "I (final_state (process_files env cfg output_dir dry_run root files s))"
  using assms
proof (induction files arbitrary: s)
  case Nil
  then show ?case by simp
next
  case (Cons f files)
  show ?case
  proof (cases "\<exists>processed \<in> processed_projects s. processed \<in> set (path_parents (root @ [f]))")
    case True
    have "I (final_state (process_files env cfg output_dir dry_run root files s))"
    proof (rule Cons.IH [OF Cons.prems(1)])
      fix u filename ok fs' ev
      assume u: "I u" and mem: "filename \<in> set files"
        and np: "\<not> (\<exists>processed \<in> processed_projects u. processed \<in> set (path_parents (root @ [filename])))"
        and c: "categorize_and_move_file env cfg (disk u) (root @ [filename]) output_dir dry_run =
             Inr (ok, fs', ev)"
      from mem have mem': "filename \<in> set (f # files)" by simp
      show "I (u\<lparr> disk := fs', log := log u @ ev, progress := count_processed False ok (progress u) \<rparr>)"
        by (rule Cons.prems(2) [OF u mem' np c])
    qed
    moreover have "process_files env cfg output_dir dry_run root (f # files) s =
        process_files env cfg output_dir dry_run root files s"
      using True by simp
    ultimately show ?thesis by simp
  next
    case False
    show ?thesis
    proof (cases "categorize_and_move_file env cfg (disk s) (root @ [f]) output_dir dry_run")
      case (Inl e)
      with Cons.prems(1) False show ?thesis by simp
    next
      case (Inr r)
      obtain ok fs' ev where r: "r = (ok, fs', ev)" by (cases r)
      define s1 where "s1 = s\<lparr> disk := fs', log := log s @ ev,
          progress := count_processed False ok (progress s) \<rparr>"
      have c0: "categorize_and_move_file env cfg (disk s) (root @ [f]) output_dir dry_run = Inr (ok, fs', ev)"
        using Inr r by simp
      have "I s1"
        unfolding s1_def
        by (rule Cons.prems(2) [OF Cons.prems(1) _ False c0]) simp
      then have "I (final_state (process_files env cfg output_dir dry_run root files s1))"
      proof (rule Cons.IH)
        fix u filename ok' fs'' ev'
        assume u: "I u" and mem: "filename \<in> set files"
          and np: "\<not> (\<exists>processed \<in> processed_projects u. processed \<in> set (path_parents (root @ [filename])))"
          and c: "categorize_and_move_file env cfg (disk u) (root @ [filename]) output_dir dry_run =
               Inr (ok', fs'', ev')"
        from mem have mem': "filename \<in> set (f # files)" by simp
        show "I (u\<lparr> disk := fs'', log := log u @ ev', progress := count_processed False ok' (progress u) \<rparr>)"
          by (rule Cons.prems(2) [OF u mem' np c])
      qed
      moreover have "process_files env cfg output_dir dry_run root (f # files) s =
          process_files env cfg output_dir dry_run root files s1"
        unfolding s1_def using False c0 by simp
      ultimately show ?thesis by simp
    qed
  qed
qed

lemma walk_files_invariant:
  assumes "I s"
    and "\<And>u c. I u \<Longrightarrow> I (u\<lparr> directories_to_check := c \<rparr>)"
    and "\<And>u file_path ok fs' ev.
           I u \<Longrightarrow>
           \<not> (\<exists>processed \<in> processed_projects u. processed \<in> set (path_parents file_path)) \<Longrightarrow>
           categorize_and_move_file env cfg (disk u) file_path output_dir dry_run = Inr (ok, fs', ev) \<Longrightarrow>
           I (u\<lparr> disk := fs', log := log u @ ev, progress := count_processed False ok (progress u) \<rparr>)"
  shows "I (final_state (walk_files env cfg output_dir dry_run del root s))"
  using assms
proof (induction env cfg output_dir dry_run del root s rule: walk_files.induct)
  case (1 env cfg output_dir dry_run del root s)
  note i = "1.prems"(1) and cand = "1.prems"(2) and step = "1.prems"(3)
  show ?case
  proof (cases "scandir (disk s) root")
    case None
    with i show ?thesis by (subst walk_files.simps) simp
  next
    case (Some x2)
    obtain dirs files where x2: "x2 = (dirs, files)" by (cases x2)
    show ?thesis
    proof (cases "under_processed (processed_projects s) root")
      case True
      with i Some x2 show ?thesis by (subst walk_files.simps) simp
    next
      case False
      define s0 where "s0 = (if del
          then s\<lparr> directories_to_check := add_candidate root (directories_to_check s) \<rparr> else s)"
      have i0: "I s0" unfolding s0_def using i cand by simp
      have ip: "I (final_state (process_files env cfg output_dir dry_run root files s0))"
      proof (rule process_files_invariant [where I = I and s = s0, OF i0])
        fix u filename ok fs' ev
        assume u: "I u"
          and np: "\<not> (\<exists>processed \<in> processed_projects u. processed \<in> set (path_parents (root @ [filename])))"
          and c: "categorize_and_move_file env cfg (disk u) (root @ [filename]) output_dir dry_run =
               Inr (ok, fs', ev)"
        show "I (u\<lparr> disk := fs', log := log u @ ev, progress := count_processed False ok (progress u) \<rparr>)"
          by (rule step [OF u np c])
      qed
      show ?thesis
      proof (cases "process_files env cfg output_dir dry_run root files s0")
        case (Inl es)
        have "walk_files env cfg output_dir dry_run del root s = Inl es"
          using Some x2 False Inl by (subst walk_files.simps) (simp add: s0_def)
        with ip Inl show ?thesis by simp
      next
        case (Inr s')
        have w: "walk_files env cfg output_dir dry_run del root s =
            for_each (\<lambda>dir_name. walk_files env cfg output_dir dry_run del (root @ [dir_name])) dirs s'"
          using Some x2 False Inr by (subst walk_files.simps) (simp add: s0_def)
        have p: "process_files env cfg output_dir dry_run root files
            (if del then s\<lparr> directories_to_check := add_candidate root (directories_to_check s) \<rparr> else s) =
            Inr s'"
          using Inr by (simp add: s0_def)
        have "I s'" using ip Inr by simp
        then have "I (final_state (for_each
            (\<lambda>dir_name. walk_files env cfg output_dir dry_run del (root @ [dir_name])) dirs s'))"
        proof (rule for_each_invariant [where I = I])
          fix x u assume x: "x \<in> set dirs" and u: "I u"
          show "I (final_state (walk_files env cfg output_dir dry_run del (root @ [x]) u))"
            by (rule "1.IH" [OF Some x2 [symmetric] False p x u cand step])
        qed
        with w show ?thesis by simp
      qed
    qed
  qed
qed

subsection \<open>The discovery pass and the claimed set\<close>

lemma antichain_Nil: "antichain []"
  by (simp add: antichain_def)

lemma antichain_single: "antichain [p]"
  by (simp add: antichain_def)

lemma antichain_append:
  assumes "antichain xs" and "antichain ys"
    and "\<forall>p \<in> set xs. \<forall>q \<in> set ys. \<not> prefix p q \<and> \<not> prefix q p"
  shows "antichain (xs @ ys)"
proof -
  have "set xs \<inter> set ys = {}"
    using assms(3) by auto
  then show ?thesis
    using assms unfolding antichain_def by auto
qed

lemma wf_lookup: "wf_node n \<Longrightarrow> lookup n p = Some m \<Longrightarrow> wf_node m"
proof (induction n p rule: lookup.induct)
  case (1 n)
  then show ?case by simp
next
  case (2 c x xs)
  then show ?case by simp
next
  case (3 r cs x xs)
  from "3.prems"(2) obtain c where c: "map_of cs x = Some c" and l: "lookup c xs = Some m"
    by (auto split: option.splits)
  from c have "(x, c) \<in> set cs" by (rule map_of_SomeD)
  with "3.prems"(1) have "wf_node c" by auto
  with "3.IH" c l show ?case by simp
qed

lemma subdir_claims_fst:
  "map fst (subdir_claims cfg pp root ds) =
     map (\<lambda>e. root @ [fst e])
       (filter (\<lambda>e. \<not> under_processed pp (root @ [fst e]) \<and>
                     classified cfg (root @ [fst e]) (cache_directory_contents (snd e))) ds)"
  by (induction ds) (auto simp: subdir_claims_def)

lemma dirs_kept_filter:
  "dirs_kept cfg pp root ds =
     filter (\<lambda>e. \<not> under_processed pp (root @ [fst e]) \<and>
                  \<not> classified cfg (root @ [fst e]) (cache_directory_contents (snd e))) ds"
  by (induction ds) (auto simp: dirs_kept_def)

lemma identify_walk_skip:
  "\<not> r \<or> under_processed pp root \<Longrightarrow> identify_walk cfg pp root (Dir r cs) = []"
  by auto

lemma identify_walk_claim:
  "r \<Longrightarrow> \<not> under_processed pp root \<Longrightarrow> classified cfg root (cache_directory_contents (Dir r cs)) \<Longrightarrow>
   identify_walk cfg pp root (Dir r cs) =
     [(root, join_name (path_parent root @ [''Applications_And_Projects'']) (path_name root))]"
  by simp

lemma identify_walk_descend:
  "r \<Longrightarrow> \<not> under_processed pp root \<Longrightarrow> \<not> classified cfg root (cache_directory_contents (Dir r cs)) \<Longrightarrow>
   identify_walk cfg pp root (Dir r cs) =
     subdir_claims cfg pp root (filter (\<lambda>(n, c). is_dir_node c) cs) @
     concat (map (\<lambda>e. identify_walk cfg pp (root @ [fst e]) (snd e))
              (dirs_kept cfg pp root (filter (\<lambda>(n, c). is_dir_node c) cs)))"
  by (simp add: split_def)

declare identify_walk.simps(2) [simp del]

lemma identify_walk_prefix:
  "pd \<in> set (identify_walk cfg pp root n) \<Longrightarrow> prefix root (fst pd)"
proof (induction cfg pp root n arbitrary: pd rule: identify_walk.induct)
  case (1 cfg pp root c)
  then show ?case by simp
next
  case (2 cfg pp root r cs)
  let ?ds = "filter (\<lambda>(n, c). is_dir_node c) cs"
  show ?case
  proof (cases "r \<and> \<not> under_processed pp root")
    case False
    then have "identify_walk cfg pp root (Dir r cs) = []"
      by (intro identify_walk_skip) auto
    with "2.prems" show ?thesis by simp
  next
    case True
    note rp = this
    show ?thesis
    proof (cases "classified cfg root (cache_directory_contents (Dir r cs))")
      case True
      with rp have "identify_walk cfg pp root (Dir r cs) =
          [(root, join_name (path_parent root @ [''Applications_And_Projects'']) (path_name root))]"
        by (intro identify_walk_claim) auto
      with "2.prems" show ?thesis by simp
    next
      case False
      with rp have "identify_walk cfg pp root (Dir r cs) =
         subdir_claims cfg pp root ?ds @
         concat (map (\<lambda>e. identify_walk cfg pp (root @ [fst e]) (snd e)) (dirs_kept cfg pp root ?ds))"
        by (intro identify_walk_descend) auto
      with "2.prems" have "pd \<in> set (subdir_claims cfg pp root ?ds) \<or>
         (\<exists>e \<in> set (dirs_kept cfg pp root ?ds). pd \<in> set (identify_walk cfg pp (root @ [fst e]) (snd e)))"
        by auto
      then consider
        (claim) "pd \<in> set (subdir_claims cfg pp root ?ds)"
        | (deep) e where "e \<in> set (dirs_kept cfg pp root ?ds)"
            and "pd \<in> set (identify_walk cfg pp (root @ [fst e]) (snd e))"
        by auto
      then show ?thesis
      proof cases
        case claim
        then have "fst pd \<in> set (map fst (subdir_claims cfg pp root ?ds))" by simp
        then show ?thesis unfolding subdir_claims_fst by auto
      next
        case deep
        have "prefix (root @ [fst e]) (fst pd)"
          using "2.IH" [of e "fst e" "snd e" pd] rp False deep by (cases e) auto
        then show ?thesis by (meson append_prefixD)
      qed
    qed
  qed
qed

lemma branch_unrelated:
  assumes "prefix (root @ [a]) p" and "prefix (root @ [b]) q" and "a \<noteq> b"
  shows "\<not> prefix p q"
proof
  assume "prefix p q"
  with assms(1) have "prefix (root @ [a]) q" by (rule prefix_order.trans)
  with assms(2) have "root @ [a] = root @ [b]"
    by (metis length_append_singleton prefix_length_prefix prefix_order.antisym order_refl)
  with assms(3) show False by simp
qed

lemma antichain_concat:
  assumes "distinct (map fst ks)"
    and "\<forall>e \<in> set ks. antichain (g e) \<and> (\<forall>p \<in> set (g e). prefix (root @ [fst e]) p)"
  shows "antichain (concat (map g ks)) \<and>
         (\<forall>p \<in> set (concat (map g ks)). \<exists>e \<in> set ks. prefix (root @ [fst e]) p)"
  using assms
proof (induction ks)
  case Nil
  then show ?case by (simp add: antichain_Nil)
next
  case (Cons k ks)
  then have ih: "antichain (concat (map g ks))"
    and ihp: "\<forall>p \<in> set (concat (map g ks)). \<exists>e \<in> set ks. prefix (root @ [fst e]) p"
    by auto
  have k: "antichain (g k)" and kp: "\<forall>p \<in> set (g k). prefix (root @ [fst k]) p"
    using Cons.prems by auto
  have cross: "\<forall>p \<in> set (g k). \<forall>q \<in> set (concat (map g ks)). \<not> prefix p q \<and> \<not> prefix q p"
  proof (intro ballI)
    fix p q assume p: "p \<in> set (g k)" and q: "q \<in> set (concat (map g ks))"
    from q ihp obtain e where e: "e \<in> set ks" and qe: "prefix (root @ [fst e]) q" by blast
    from Cons.prems(1) e have ne: "fst k \<noteq> fst e" by auto
    from kp p have pk: "prefix (root @ [fst k]) p" by blast
    show "\<not> prefix p q \<and> \<not> prefix q p"
      using branch_unrelated [OF pk qe ne] branch_unrelated [OF qe pk] ne by auto
  qed
  have "antichain (g k @ concat (map g ks))"
    using k ih cross by (rule antichain_append)
  moreover have "\<forall>p \<in> set (g k @ concat (map g ks)). \<exists>e \<in> set (k # ks). prefix (root @ [fst e]) p"
    using kp ihp by auto
  ultimately show ?case by simp
qed

lemma antichain_children:
  assumes "distinct (map fst ks)"
  shows "antichain (map (\<lambda>e. root @ [fst e]) ks)"
proof -
  have "antichain (concat (map (\<lambda>e. [root @ [fst e]]) ks))"
    using assms antichain_concat [of ks "\<lambda>e. [root @ [fst e]]" root]
    by (simp add: antichain_single)
  moreover have "concat (map (\<lambda>e. [root @ [fst e]]) ks) = map (\<lambda>e. root @ [fst e]) ks"
    by (induction ks) auto
  ultimately show ?thesis by simp
qed

lemma identify_walk_antichain:
  "wf_node n \<Longrightarrow> antichain (map fst (identify_walk cfg pp root n))"
proof (induction cfg pp root n rule: identify_walk.induct)
  case (1 cfg pp root c)
  then show ?case by (simp add: antichain_Nil)
next
  case (2 cfg pp root r cs)
  let ?ds = "filter (\<lambda>(n, c). is_dir_node c) cs"
  let ?g = "\<lambda>e. map fst (identify_walk cfg pp (root @ [fst e]) (snd e))"
  show ?case
  proof (cases "r \<and> \<not> under_processed pp root")
    case False
    then have "identify_walk cfg pp root (Dir r cs) = []"
      by (intro identify_walk_skip) auto
    then show ?thesis by (simp add: antichain_Nil)
  next
    case True
    note rp = this
    show ?thesis
    proof (cases "classified cfg root (cache_directory_contents (Dir r cs))")
      case True
      with rp have "identify_walk cfg pp root (Dir r cs) =
          [(root, join_name (path_parent root @ [''Applications_And_Projects'']) (path_name root))]"
        by (intro identify_walk_claim) auto
      then show ?thesis by (simp add: antichain_single)
    next
      case False
      with rp have eq: "identify_walk cfg pp root (Dir r cs) =
         subdir_claims cfg pp root ?ds @
         concat (map (\<lambda>e. identify_walk cfg pp (root @ [fst e]) (snd e)) (dirs_kept cfg pp root ?ds))"
        by (intro identify_walk_descend) auto
      have dcs: "distinct (map fst cs)" and wfc: "\<forall>e \<in> set cs. wf_node (snd e)"
        using "2.prems" by auto
      have dds: "distinct (map fst ?ds)"
        using dcs by (rule distinct_map_filter)
      have dk: "distinct (map fst (dirs_kept cfg pp root ?ds))"
        unfolding dirs_kept_filter using dds by (rule distinct_map_filter)
      have sub: "set (dirs_kept cfg pp root ?ds) \<subseteq> set cs"
        by (auto simp: dirs_kept_filter)
      have each: "\<forall>e \<in> set (dirs_kept cfg pp root ?ds).
          antichain (?g e) \<and> (\<forall>p \<in> set (?g e). prefix (root @ [fst e]) p)"
      proof
        fix e assume e: "e \<in> set (dirs_kept cfg pp root ?ds)"
        then have "wf_node (snd e)" using sub wfc by auto
        then have "antichain (?g e)"
          using "2.IH" [of e "fst e" "snd e"] rp False e by (cases e) auto
        moreover have "\<forall>p \<in> set (?g e). prefix (root @ [fst e]) p"
          using identify_walk_prefix by fastforce
        ultimately show "antichain (?g e) \<and> (\<forall>p \<in> set (?g e). prefix (root @ [fst e]) p)" ..
      qed
      have deep: "antichain (concat (map ?g (dirs_kept cfg pp root ?ds)))"
        and deepp: "\<forall>p \<in> set (concat (map ?g (dirs_kept cfg pp root ?ds))).
                      \<exists>e \<in> set (dirs_kept cfg pp root ?ds). prefix (root @ [fst e]) p"
        using antichain_concat [OF dk each] by auto
      let ?claimed = "filter (\<lambda>e. \<not> under_processed pp (root @ [fst e]) \<and>
                     classified cfg (root @ [fst e]) (cache_directory_contents (snd e))) ?ds"
      have claims: "antichain (map fst (subdir_claims cfg pp root ?ds))"
        unfolding subdir_claims_fst
        by (rule antichain_children) (rule distinct_map_filter [OF dds])
      have cross: "\<forall>p \<in> set (map fst (subdir_claims cfg pp root ?ds)).
          \<forall>q \<in> set (concat (map ?g (dirs_kept cfg pp root ?ds))). \<not> prefix p q \<and> \<not> prefix q p"
      proof (intro ballI)
        fix p q
        assume p: "p \<in> set (map fst (subdir_claims cfg pp root ?ds))"
          and q: "q \<in> set (concat (map ?g (dirs_kept cfg pp root ?ds)))"
        from p obtain c where c: "c \<in> set ?claimed" and pc: "p = root @ [fst c]"
          unfolding subdir_claims_fst by auto
        from q deepp obtain e where e: "e \<in> set (dirs_kept cfg pp root ?ds)"
          and qe: "prefix (root @ [fst e]) q" by blast
        have "c \<in> set ?ds" and "e \<in> set ?ds" and "c \<noteq> e"
          using c e by (auto simp: dirs_kept_filter)
        with dds have ne: "fst c \<noteq> fst e"
          by (metis distinct_map inj_onD)
        have pk: "prefix (root @ [fst c]) p" using pc by simp
        show "\<not> prefix p q \<and> \<not> prefix q p"
          using branch_unrelated [OF pk qe ne] branch_unrelated [OF qe pk] ne by auto
      qed
      have "map fst (identify_walk cfg pp root (Dir r cs)) =
          map fst (subdir_claims cfg pp root ?ds) @ concat (map ?g (dirs_kept cfg pp root ?ds))"
        unfolding eq by (simp add: map_concat comp_def)
      moreover have "antichain (map fst (subdir_claims cfg pp root ?ds) @
          concat (map ?g (dirs_kept cfg pp root ?ds)))"
        using claims deep cross by (rule antichain_append)
      ultimately show ?thesis by simp
    qed
  qed
qed

lemma relocate_projects_claimed_final:
  "processed_projects s \<subseteq> processed_projects (final_state (relocate_projects env output_dir dry_run projs s)) \<and>
   processed_projects (final_state (relocate_projects env output_dir dry_run projs s)) \<subseteq>
     processed_projects s \<union> fst ` set projs"
proof (rule relocate_projects_invariant
    [where I = "\<lambda>u. processed_projects s \<subseteq> processed_projects u \<and>
                     processed_projects u \<subseteq> processed_projects s \<union> fst ` set projs"])
  show "processed_projects s \<subseteq> processed_projects s \<and>
        processed_projects s \<subseteq> processed_projects s \<union> fst ` set projs"
    by simp
next
  fix u source_path destination ok fs' ev
  assume u: "processed_projects s \<subseteq> processed_projects u \<and>
      processed_projects u \<subseteq> processed_projects s \<union> fst ` set projs"
    and m: "(source_path, destination) \<in> set projs"
  from m have "source_path \<in> fst ` set projs" by force
  with u show "processed_projects s \<subseteq> processed_projects
         (u\<lparr> disk := fs', log := log u @ ev,
             processed_projects :=
               (if ok then insert source_path (processed_projects u) else processed_projects u),
             progress := count_processed True ok (progress u) \<rparr>) \<and>
       processed_projects
         (u\<lparr> disk := fs', log := log u @ ev,
             processed_projects :=
               (if ok then insert source_path (processed_projects u) else processed_projects u),
             progress := count_processed True ok (progress u) \<rparr>) \<subseteq>
       processed_projects s \<union> fst ` set projs"
    by auto
qed

lemma relocate_projects_claimed:
  "relocate_projects env output_dir dry_run projs s = Inr s' \<Longrightarrow>
   processed_projects s \<subseteq> processed_projects s' \<and>
   processed_projects s' \<subseteq> processed_projects s \<union> fst ` set projs"
  using relocate_projects_claimed_final [of s env output_dir dry_run projs] by simp

lemma walk_files_claimed:
  "processed_projects (final_state (walk_files env cfg output_dir dry_run del root s)) =
     processed_projects s"
  by (rule walk_files_invariant [where I = "\<lambda>u. processed_projects u = processed_projects s"])
    simp_all

lemma reclaim_claimed: "processed_projects (reclaim env input_dir dry_run s) = processed_projects s"
  by (simp add: reclaim_def split: prod.splits)

lemma validate_input: "validate_input_paths fs input_arg output_opt = Inr (input_dir, output_dir) \<Longrightarrow>
  input_dir = input_arg"
  by (auto simp: validate_input_paths_def Let_def split: if_splits sum.splits)

text \<open>The phases of a run that the validation lets pass: the state after the project loop,
  what the walk answers from there, and the outcome.\<close>

lemma sort_files_run_phases:
  assumes "validate_input_paths fs input_arg output_opt = Inr (input_dir, output_dir)"
  shows "sort_files_run env cfg fs input_arg output_opt dry_run del =
     (case relocate_projects env output_dir dry_run (identify_projects cfg fs input_arg {})
             (initial_state fs input_arg) of
        Inl (e, s) \<Rightarrow> Aborted e s
      | Inr s1 \<Rightarrow>
          (case walk_files env cfg output_dir dry_run del input_arg s1 of
             Inl (e, s) \<Rightarrow> Aborted e s
           | Inr s2 \<Rightarrow> Completed (if del then reclaim env input_arg dry_run s2 else s2)))"
proof -
  have i: "input_dir = input_arg" using assms by (rule validate_input)
  have p0: "processed_projects (initial_state fs input_arg) = {}"
    by (simp add: initial_state_def)
  show ?thesis
    using assms i by (simp add: sort_files_run_def Let_def p0)
qed

text \<open>The state a run ends in, where it was not rejected.\<close>

lemma sort_files_run_state:
  assumes "sort_files_run env cfg fs input_arg output_opt dry_run del = Completed s \<or>
           sort_files_run env cfg fs input_arg output_opt dry_run del = Aborted e s"
  shows "\<exists>output_dir r1.
     validate_input_paths fs input_arg output_opt = Inr (input_arg, output_dir) \<and>
     r1 = relocate_projects env output_dir dry_run (identify_projects cfg fs input_arg {})
            (initial_state fs input_arg) \<and>
     (s = final_state r1 \<or>
      s = final_state (walk_files env cfg output_dir dry_run del input_arg (final_state r1)) \<or>
      s = reclaim env input_arg dry_run
            (final_state (walk_files env cfg output_dir dry_run del input_arg (final_state r1))))"
proof -
  from assms obtain input_dir output_dir where
    v: "validate_input_paths fs input_arg output_opt = Inr (input_dir, output_dir)"
    by (auto simp: sort_files_run_def split: sum.splits)
  have i: "input_dir = input_arg" using v by (rule validate_input)
  note ph = sort_files_run_phases [OF v, of env cfg dry_run del]
  let ?r1 = "relocate_projects env output_dir dry_run (identify_projects cfg fs input_arg {})
            (initial_state fs input_arg)"
  have "s = final_state ?r1 \<or>
      s = final_state (walk_files env cfg output_dir dry_run del input_arg (final_state ?r1)) \<or>
      s = reclaim env input_arg dry_run
            (final_state (walk_files env cfg output_dir dry_run del input_arg (final_state ?r1)))"
    using assms unfolding ph by (auto split: sum.splits prod.splits if_splits)
  with v i show ?thesis by blast
qed

lemma sort_files_run_claimed:
  assumes "sort_files_run env cfg fs input_arg output_opt dry_run del = Completed s \<or>
           sort_files_run env cfg fs input_arg output_opt dry_run del = Aborted e s"
  shows "processed_projects s \<subseteq> fst ` set (identify_projects cfg fs input_arg {})"
proof -
  from sort_files_run_state [OF assms] obtain output_dir r1 where
    r1: "r1 = relocate_projects env output_dir dry_run (identify_projects cfg fs input_arg {})
            (initial_state fs input_arg)"
    and s: "s = final_state r1 \<or>
      s = final_state (walk_files env cfg output_dir dry_run del input_arg (final_state r1)) \<or>
      s = reclaim env input_arg dry_run
            (final_state (walk_files env cfg output_dir dry_run del input_arg (final_state r1)))"
    by blast
  have "processed_projects s = processed_projects (final_state r1)"
    using s by (auto simp: walk_files_claimed reclaim_claimed)
  moreover have "processed_projects (final_state r1) \<subseteq>
      processed_projects (initial_state fs input_arg) \<union> fst ` set (identify_projects cfg fs input_arg {})"
    unfolding r1 using relocate_projects_claimed_final by blast
  moreover have "processed_projects (initial_state fs input_arg) = {}"
    by (simp add: initial_state_def)
  ultimately show ?thesis by simp
qed

lemma antichain_unrelated:
  "antichain ps \<Longrightarrow> S \<subseteq> set ps \<Longrightarrow> \<forall>p \<in> S. \<forall>q \<in> S. prefix p q \<longrightarrow> p = q"
  unfolding antichain_def by blast

lemma identify_projects_antichain:
  "wf_node fs \<Longrightarrow> antichain (map fst (identify_projects cfg fs input_dir pp))"
  by (auto simp: identify_projects_def antichain_Nil split: option.splits
      intro: identify_walk_antichain wf_lookup)

text \<open>
  C7. In a file system whose directories have distinct entry names, the paths the
  discovery pass claims are pairwise different and none is an ancestor of another. The
  claimed set of a run starts empty (\<open>initial_state\<close>); the project loop only adds to
  it, and only sources of the discovered list; the file pass and the reclamation leave it
  as it is, also where the file pass is left by an exception. So at every moment of a run
  it is a set of discovered sources that only grows, and in the state a run ends in,
  completed or not, no member is an ancestor of another.
\<close>

theorem claimed_projects_invariant:
  assumes "wf_node fs"
  shows "antichain (map fst (identify_projects cfg fs input_dir pp)) \<and>
    (\<forall>s s'. relocate_projects env output_dir dry_run projs s = Inr s' \<longrightarrow>
        processed_projects s \<subseteq> processed_projects s' \<and>
        processed_projects s' \<subseteq> processed_projects s \<union> fst ` set projs) \<and>
    (\<forall>s. processed_projects (final_state (walk_files env cfg output_dir dry_run del root s)) =
        processed_projects s) \<and>
    (\<forall>s. processed_projects (reclaim env input_dir dry_run s) = processed_projects s) \<and>
    (\<forall>s. sort_files_run env cfg fs input_dir output_opt dry_run del = Completed s \<longrightarrow>
        processed_projects s \<subseteq> fst ` set (identify_projects cfg fs input_dir {}) \<and>
        (\<forall>p \<in> processed_projects s. \<forall>q \<in> processed_projects s. prefix p q \<longrightarrow> p = q)) \<and>
    (\<forall>e s. sort_files_run env cfg fs input_dir output_opt dry_run del = Aborted e s \<longrightarrow>
        processed_projects s \<subseteq> fst ` set (identify_projects cfg fs input_dir {}) \<and>
        (\<forall>p \<in> processed_projects s. \<forall>q \<in> processed_projects s. prefix p q \<longrightarrow> p = q))"
proof (intro conjI allI impI)
  show "antichain (map fst (identify_projects cfg fs input_dir pp))"
    using assms by (rule identify_projects_antichain)
next
  fix s s' assume "relocate_projects env output_dir dry_run projs s = Inr s'"
  then show "processed_projects s \<subseteq> processed_projects s'"
    and "processed_projects s' \<subseteq> processed_projects s \<union> fst ` set projs"
    using relocate_projects_claimed by blast+
next
  fix s show "processed_projects (final_state (walk_files env cfg output_dir dry_run del root s)) =
        processed_projects s"
    by (rule walk_files_claimed)
next
  fix s show "processed_projects (reclaim env input_dir dry_run s) = processed_projects s"
    by (rule reclaim_claimed)
next
  fix s assume c: "sort_files_run env cfg fs input_dir output_opt dry_run del = Completed s"
  show sub: "processed_projects s \<subseteq> fst ` set (identify_projects cfg fs input_dir {})"
    by (rule sort_files_run_claimed [OF disjI1 [OF c]])
  have "antichain (map fst (identify_projects cfg fs input_dir {}))"
    using assms by (rule identify_projects_antichain)
  then show "\<forall>p \<in> processed_projects s. \<forall>q \<in> processed_projects s. prefix p q \<longrightarrow> p = q"
    using sub by (intro antichain_unrelated) auto
next
  fix e s assume c: "sort_files_run env cfg fs input_dir output_opt dry_run del = Aborted e s"
  show sub: "processed_projects s \<subseteq> fst ` set (identify_projects cfg fs input_dir {})"
    by (rule sort_files_run_claimed [OF disjI2 [OF c]])
  have "antichain (map fst (identify_projects cfg fs input_dir {}))"
    using assms by (rule identify_projects_antichain)
  then show "\<forall>p \<in> processed_projects s. \<forall>q \<in> processed_projects s. prefix p q \<longrightarrow> p = q"
    using sub by (intro antichain_unrelated) auto
qed

lemma identify_walk_dest:
  "pd \<in> set (identify_walk cfg pp root n) \<Longrightarrow> prefix (path_parent (fst pd)) (snd pd)"
proof (induction cfg pp root n arbitrary: pd rule: identify_walk.induct)
  case (1 cfg pp root c)
  then show ?case by simp
next
  case (2 cfg pp root r cs)
  let ?ds = "filter (\<lambda>(n, c). is_dir_node c) cs"
  show ?case
  proof (cases "r \<and> \<not> under_processed pp root")
    case False
    then have "identify_walk cfg pp root (Dir r cs) = []"
      by (intro identify_walk_skip) auto
    with "2.prems" show ?thesis by simp
  next
    case True
    note rp = this
    show ?thesis
    proof (cases "classified cfg root (cache_directory_contents (Dir r cs))")
      case True
      with rp have "identify_walk cfg pp root (Dir r cs) =
          [(root, join_name (path_parent root @ [''Applications_And_Projects'']) (path_name root))]"
        by (intro identify_walk_claim) auto
      with "2.prems" show ?thesis by (auto simp: join_name_def)
    next
      case False
      with rp have "identify_walk cfg pp root (Dir r cs) =
         subdir_claims cfg pp root ?ds @
         concat (map (\<lambda>e. identify_walk cfg pp (root @ [fst e]) (snd e)) (dirs_kept cfg pp root ?ds))"
        by (intro identify_walk_descend) auto
      with "2.prems" consider
        (claim) "pd \<in> set (subdir_claims cfg pp root ?ds)"
        | (deep) e where "e \<in> set (dirs_kept cfg pp root ?ds)"
            and "pd \<in> set (identify_walk cfg pp (root @ [fst e]) (snd e))"
        by auto
      then show ?thesis
      proof cases
        case claim
        then show ?thesis by (auto simp: subdir_claims_def path_parent_def)
      next
        case deep
        show ?thesis
          using "2.IH" [of e "fst e" "snd e" pd] rp False deep by (cases e) auto
      qed
    qed
  qed
qed

lemma identify_projects_dest:
  "pd \<in> set (identify_projects cfg fs input_dir pp) \<Longrightarrow> prefix (path_parent (fst pd)) (snd pd)"
  by (auto simp: identify_projects_def split: option.splits dest: identify_walk_dest)

lemma move_project_returns:
  "prefix (path_parent source) destination \<Longrightarrow>
   \<exists>ok fs' ev. move_project env fs source destination output_dir dry_run = Inr (ok, fs', ev)"
  by (auto simp: move_project_def relative_to_def Let_def split: option.splits prod.splits bool.splits)

lemma relocate_projects_returns:
  "\<forall>pd \<in> set projs. prefix (path_parent (fst pd)) (snd pd) \<Longrightarrow>
   \<exists>s'. relocate_projects env output_dir dry_run projs s = Inr s'"
proof (induction projs arbitrary: s)
  case Nil
  then show ?case by simp
next
  case (Cons pd projs)
  obtain source_path destination where pd: "pd = (source_path, destination)" by (cases pd)
  with Cons.prems have "prefix (path_parent source_path) destination" by simp
  then obtain ok fs' ev where
    "move_project env (disk s) source_path destination output_dir dry_run = Inr (ok, fs', ev)"
    using move_project_returns by blast
  then show ?case
    using Cons.IH Cons.prems pd by simp
qed

lemma identified_projects_return:
  "\<exists>s1. relocate_projects env output_dir dry_run (identify_projects cfg fs input_dir pp) s = Inr s1"
proof -
  have "\<forall>pd \<in> set (identify_projects cfg fs input_dir pp). prefix (path_parent (fst pd)) (snd pd)"
    using identify_projects_dest by blast
  then show ?thesis by (rule relocate_projects_returns)
qed

lemma unique_loop_error:
  "unique_loop env fs t c = Inl e \<Longrightarrow> e = OSError \<and> (\<exists>p. exists_raises env p)"
proof (induction env fs t c rule: unique_loop.induct)
  case (1 env fs target counter)
  show ?case
  proof (cases "exists_raises env (numbered_path target counter)")
    case True
    with "1.prems" show ?thesis
      by (subst (asm) unique_loop.simps) (auto simp: exists_def)
  next
    case False
    note nr = this
    show ?thesis
    proof (cases "\<not> path_exists fs (numbered_path target counter) \<or> counter + 1 > 10000")
      case True
      with "1.prems" nr show ?thesis
        by (subst (asm) unique_loop.simps) (auto simp: exists_def split: if_splits)
    next
      case False
      with "1.prems" nr have "unique_loop env fs target (counter + 1) = Inl e"
        by (subst (asm) unique_loop.simps) (auto simp: exists_def split: if_splits)
      with "1.IH" [of "path_exists fs (numbered_path target counter)"] False nr show ?thesis
        by (simp add: exists_def)
    qed
  qed
qed

lemma generate_unique_filename_error:
  "generate_unique_filename env fs t = Inl e \<Longrightarrow> e = OSError \<and> (\<exists>p. exists_raises env p)"
  by (auto simp: generate_unique_filename_def exists_def split: if_splits dest: unique_loop_error)

lemma categorize_error:
  "categorize_and_move_file env cfg fs file_path output_dir dry_run = Inl e \<Longrightarrow>
   e = OSError \<and> (\<exists>p. exists_raises env p)"
  by (auto simp: categorize_and_move_file_def Let_def
      split: sum.splits prod.splits if_splits option.splits bool.splits
      dest: generate_unique_filename_error)

lemma process_files_error:
  "process_files env cfg output_dir dry_run root files s = Inl (e, s') \<Longrightarrow>
   e = OSError \<and> (\<exists>p. exists_raises env p)"
proof (induction files arbitrary: s)
  case Nil
  then show ?case by simp
next
  case (Cons f files)
  show ?case
  proof (cases "\<exists>processed \<in> processed_projects s. processed \<in> set (path_parents (root @ [f]))")
    case True
    with Cons show ?thesis by simp
  next
    case False
    show ?thesis
    proof (cases "categorize_and_move_file env cfg (disk s) (root @ [f]) output_dir dry_run")
      case (Inl e')
      with Cons.prems False have "e' = e" by simp
      with Inl show ?thesis using categorize_error by blast
    next
      case (Inr r)
      obtain ok fs' ev where r: "r = (ok, fs', ev)" by (cases r)
      with Cons.prems False Inr have "process_files env cfg output_dir dry_run root files
          (s\<lparr> disk := fs', log := log s @ ev, progress := count_processed False ok (progress s) \<rparr>) =
          Inl (e, s')"
        by simp
      then show ?thesis by (rule Cons.IH)
    qed
  qed
qed

lemma for_each_error:
  assumes "for_each body xs s = Inl (e, s')"
    and "\<And>x u u'. x \<in> set xs \<Longrightarrow> body x u = Inl (e, u') \<Longrightarrow> P"
  shows P
  using assms
proof (induction xs arbitrary: s)
  case Nil
  then show ?case by simp
next
  case (Cons x xs)
  show ?case
  proof (cases "body x s")
    case (Inl es)
    with Cons.prems(1) have b: "body x s = Inl (e, s')" by simp
    show ?thesis by (rule Cons.prems(2) [of x s s']) (simp_all add: b)
  next
    case (Inr u)
    with Cons.prems(1) have "for_each body xs u = Inl (e, s')" by simp
    then show ?thesis
    proof (rule Cons.IH)
      fix y v v' assume "y \<in> set xs" and b: "body y v = Inl (e, v')"
      then have "y \<in> set (x # xs)" by simp
      then show P using b by (rule Cons.prems(2))
    qed
  qed
qed

lemma walk_files_error:
  "walk_files env cfg output_dir dry_run del root s = Inl (e, s') \<Longrightarrow>
   e = OSError \<and> (\<exists>p. exists_raises env p)"
proof (induction env cfg output_dir dry_run del root s arbitrary: s' rule: walk_files.induct)
  case (1 env cfg output_dir dry_run del root s)
  show ?case
  proof (cases "scandir (disk s) root")
    case None
    with "1.prems" show ?thesis by (subst (asm) walk_files.simps) simp
  next
    case (Some x2)
    obtain dirs files where x2: "x2 = (dirs, files)" by (cases x2)
    show ?thesis
    proof (cases "under_processed (processed_projects s) root")
      case True
      with "1.prems" Some x2 show ?thesis by (subst (asm) walk_files.simps) simp
    next
      case False
      define s0 where "s0 = (if del
          then s\<lparr> directories_to_check := add_candidate root (directories_to_check s) \<rparr> else s)"
      show ?thesis
      proof (cases "process_files env cfg output_dir dry_run root files s0")
        case (Inl es)
        have "walk_files env cfg output_dir dry_run del root s = Inl es"
          using Some x2 False Inl by (subst walk_files.simps) (simp add: s0_def)
        with "1.prems" Inl have "process_files env cfg output_dir dry_run root files s0 = Inl (e, s')"
          by simp
        then show ?thesis by (rule process_files_error)
      next
        case (Inr u)
        have w: "walk_files env cfg output_dir dry_run del root s =
            for_each (\<lambda>dir_name. walk_files env cfg output_dir dry_run del (root @ [dir_name])) dirs u"
          using Some x2 False Inr by (subst walk_files.simps) (simp add: s0_def)
        have p: "process_files env cfg output_dir dry_run root files
            (if del then s\<lparr> directories_to_check := add_candidate root (directories_to_check s) \<rparr> else s) =
            Inr u"
          using Inr by (simp add: s0_def)
        from "1.prems" w have f: "for_each
            (\<lambda>dir_name. walk_files env cfg output_dir dry_run del (root @ [dir_name])) dirs u = Inl (e, s')"
          by simp
        show ?thesis
        proof (rule for_each_error [OF f])
          fix x v v'
          assume "x \<in> set dirs"
            and "walk_files env cfg output_dir dry_run del (root @ [x]) v = Inl (e, v')"
          then show "e = OSError \<and> (\<exists>p. exists_raises env p)"
            by (rule "1.IH" [OF Some x2 [symmetric] False p])
        qed
      qed
    qed
  qed
qed

text \<open>A run that the validation lets pass ends, completed or left by the exception of a
  probe; where no probe raises it is completed.\<close>

lemma sort_files_run_ends:
  assumes "validate_input_paths fs input_arg output_opt = Inr io"
  shows "(\<exists>s. sort_files_run env cfg fs input_arg output_opt dry_run del = Completed s) \<or>
         (\<exists>s. sort_files_run env cfg fs input_arg output_opt dry_run del = Aborted OSError s \<and>
              (\<exists>p. exists_raises env p))"
proof -
  obtain input_dir output_dir where io: "io = (input_dir, output_dir)" by (cases io)
  note ph = sort_files_run_phases [OF assms [unfolded io], of env cfg dry_run del]
  obtain s1 where r: "relocate_projects env output_dir dry_run (identify_projects cfg fs input_arg {})
      (initial_state fs input_arg) = Inr s1"
    using identified_projects_return by blast
  show ?thesis
  proof (cases "walk_files env cfg output_dir dry_run del input_arg s1")
    case (Inl es)
    obtain e s where es: "es = (e, s)" by (cases es)
    have "e = OSError \<and> (\<exists>p. exists_raises env p)"
      using Inl es walk_files_error by blast
    then show ?thesis unfolding ph using r Inl es by simp
  next
    case (Inr s2)
    then show ?thesis unfolding ph using r by simp
  qed
qed

lemma sort_files_run_completes:
  assumes "validate_input_paths fs input_arg output_opt = Inr io" and "\<forall>p. \<not> exists_raises env p"
  shows "\<exists>s. sort_files_run env cfg fs input_arg output_opt dry_run del = Completed s"
  using sort_files_run_ends [OF assms(1), of env cfg dry_run del] assms(2) by blast

lemma sample_valid: "validate_input_paths sample_fs [''in''] None = Inr ([''in''], [''in_Sorted''])"
  by code_simp

lemma quiet_probes: "\<forall>p. \<not> exists_raises quiet p"
  by (simp add: quiet_def)

text \<open>The invariant at the sample tree: \<open>proj\<close> is claimed and \<open>proj/vendor\<close> inside it
  is not; \<open>b/web\<close> is claimed below the plain directory \<open>b\<close>.\<close>

theorem claimed_projects_invariant_witness:
  "wf_node sample_fs \<and>
   antichain (map fst (identify_projects default_config sample_fs [''in''] {})) \<and>
   map fst (identify_projects default_config sample_fs [''in''] {}) =
     [[''in'', ''proj''], [''in'', ''b'', ''web'']] \<and>
   (\<exists>s. sort_files_run quiet default_config sample_fs [''in''] None False True = Completed s \<and>
        processed_projects s \<subseteq> {[''in'', ''proj''], [''in'', ''b'', ''web'']})"
proof -
  have wf: "wf_node sample_fs"
    by (simp add: sample_fs_def)
  have ids: "map fst (identify_projects default_config sample_fs [''in''] {}) =
     [[''in'', ''proj''], [''in'', ''b'', ''web'']]"
    by code_simp
  then have img: "fst ` set (identify_projects default_config sample_fs [''in''] {}) =
     {[''in'', ''proj''], [''in'', ''b'', ''web'']}"
    by (simp only: set_map [symmetric]) simp
  obtain s where s: "sort_files_run quiet default_config sample_fs [''in''] None False True = Completed s"
    using sort_files_run_completes [OF sample_valid quiet_probes] by blast
  note inv = claimed_projects_invariant [OF wf, where cfg = default_config and input_dir = "[''in'']"
      and pp = "{}" and env = quiet and output_dir = "[''in_Sorted'']" and dry_run = False
      and projs = "[]" and del = True and root = "[]" and output_opt = None]
  have a: "antichain (map fst (identify_projects default_config sample_fs [''in''] {}))"
    using inv by (rule conjunct1)
  have "processed_projects s \<subseteq> fst ` set (identify_projects default_config sample_fs [''in''] {})"
    using inv [THEN conjunct2, THEN conjunct2, THEN conjunct2, THEN conjunct2, THEN conjunct1,
               THEN spec, THEN mp, OF s]
    by (rule conjunct1)
  then have sub: "processed_projects s \<subseteq> {[''in'', ''proj''], [''in'', ''b'', ''web'']}"
    by (simp only: img)
  have "\<exists>s. sort_files_run quiet default_config sample_fs [''in''] None False True = Completed s \<and>
        processed_projects s \<subseteq> {[''in'', ''proj''], [''in'', ''b'', ''web'']}"
    using s sub by (intro exI conjI)
  with wf a ids show ?thesis by (intro conjI)
qed

subsection \<open>Path validation\<close>

text \<open>
  C1 says that a run whose output path lies inside the input path is rejected before
  any phase, as a run with equal paths is. The code does not: the \<^verbatim>\<open>ValueError\<close> raised
  for a nested output is raised inside the \<^verbatim>\<open>try\<close> whose \<^verbatim>\<open>except ValueError: pass\<close>
  swallows it. With input \<open>/in\<close> and output \<open>/in/out\<close> the validation returns both paths,
  the run is not rejected, and the file of the input is moved below \<open>/in/out\<close>; with
  output \<open>/in\<close> the run is rejected.
\<close>

theorem validate_input_paths_nested_output_accepted:
  "validate_input_paths nested_fs [''in''] (Some [''in'', ''out'']) = Inr ([''in''], [''in'', ''out'']) \<and>
   validate_input_paths nested_fs [''in''] (Some [''in'']) =
     Inl (ValueError ''Input and output directories cannot be the same'') \<and>
   sort_files_run quiet default_config nested_fs [''in''] (Some [''in'', ''out'']) False False =
     Completed
       \<lparr> disk = Dir True [(''in'', Dir True [(''out'', Dir True [(''Documents'', Dir True
                  [(''Text'', Dir True [(''a.txt'', File ''x'')])])])])],
         progress = \<lparr> total_items = 1, processed_items = 1, projects_moved = 0,
                      files_moved = 1, errors = 0 \<rparr>,
         processed_projects = {},
         directories_to_check = [],
         log = [FileTarget [''in'', ''a.txt''] [''in'', ''out'', ''Documents'', ''Text'', ''a.txt'']] \<rparr>"
  by code_simp

subsection \<open>Bundles without content\<close>

text \<open>
  C4 says that a reached directory whose name ends in a bundle suffix is claimed whatever
  it holds, also when it holds nothing. The classifier agrees: it answers true for
  \<open>Foo.app\<close> with an empty listing. The discovery pass asks it only behind the guard
  \<^verbatim>\<open>dir_contents and ...\<close>, which an empty listing fails just as an unreadable directory
  does, so the empty \<open>Foo.app\<close> is not claimed, while \<open>Bar.app\<close>, holding one entry that is
  no marker, is.
\<close>

theorem identify_projects_skips_empty_bundle:
  "is_project_or_app_folder default_config [''in'', ''Foo.app''] [] \<and>
   identify_projects default_config bundles_fs [''in''] {} =
     [([''in'', ''Bar.app''], [''in'', ''Applications_And_Projects'', ''Bar.app''])]"
  by code_simp

subsection \<open>The result of a run\<close>























end
